theory Spec2Isabelle
  imports Complex_Main "HOL-Library.Multiset" "HOL-Library.Sublist" "HOL-Library.Log_Nat"
begin

section \<open>Python values and errors\<close>

text \<open>
  The data pipeline of \<^verbatim>\<open>osuT5/dataset/ors_dataset.py\<close> is embedded function by
  function. An exception of the source is a value \<open>Inl e\<close> of the result type; a normal
  return is \<open>Inr v\<close>. \<open>collect f xs\<close> is a loop that handles the items of \<open>xs\<close> in order
  and is left by the first exception.
\<close>

datatype py_error =
  StopIteration | ZeroDivisionError | IndexError | KeyError | ValueError | RuntimeError
  | OverflowError

definition bindE :: "py_error + 'a \<Rightarrow> ('a \<Rightarrow> py_error + 'b) \<Rightarrow> py_error + 'b" where
  "bindE m f = (case m of Inl e \<Rightarrow> Inl e | Inr x \<Rightarrow> f x)"

fun collect :: "('a \<Rightarrow> py_error + 'b) \<Rightarrow> 'a list \<Rightarrow> py_error + 'b list" where
  "collect f [] = Inr []"
| "collect f (x # xs) = bindE (f x) (\<lambda>y. bindE (collect f xs) (\<lambda>ys. Inr (y # ys)))"

definition del_at :: "nat \<Rightarrow> 'a list \<Rightarrow> 'a list" where
  \<comment> \<open>\<^verbatim>\<open>del xs[i]\<close> for an index in range.\<close>
  "del_at i xs = take i xs @ drop (Suc i) xs"

section \<open>InterleavingBeatmapDatasetIterable\<close>

text \<open>
  A worker is a sub-iterator that yields finitely many items and then raises
  \<^verbatim>\<open>StopIteration\<close>; it is represented by the list of the items it has still to yield, so
  \<^verbatim>\<open>__next__\<close> on \<open>x # rest\<close> returns \<open>x\<close> and leaves \<open>rest\<close>, and on \<open>[]\<close> raises
  \<^verbatim>\<open>StopIteration\<close>. Workers are distinct generator objects compared by identity, so
  \<^verbatim>\<open>self.workers.remove(self.workers[self.index])\<close> deletes the entry at \<open>index\<close>.
\<close>

record 'a mux =
  workers :: "'a list list"
  cycle_length :: int
  index :: nat

definition mux_start :: "'a list list \<Rightarrow> int \<Rightarrow> 'a mux" where
  \<comment> \<open>The state \<^verbatim>\<open>__init__\<close> leaves, given the worker iterators it has created.\<close>
  "mux_start ws c = \<lparr>workers = ws, cycle_length = c, index = 0\<rparr>"

text \<open>
  The body of \<^verbatim>\<open>for _ in range(num)\<close> in \<^verbatim>\<open>__next__\<close>; the first argument counts the
  iterations left. \<^verbatim>\<open>self.index % len(self.workers)\<close> raises \<^verbatim>\<open>ZeroDivisionError\<close> on an
  empty worker list.
\<close>

fun next_loop :: "nat \<Rightarrow> 'a mux \<Rightarrow> (py_error + 'a) \<times> 'a mux" where
  "next_loop 0 s = (Inl StopIteration, s)"
| "next_loop (Suc k) s =
     (if length (workers s) = 0 then (Inl ZeroDivisionError, s)
      else
        let s1 = s\<lparr>index := index s mod length (workers s)\<rparr> in
        (case workers s1 ! index s1 of
           x # rest \<Rightarrow>
             (Inr x, s1\<lparr>workers := (workers s1)[index s1 := rest], index := index s1 + 1\<rparr>)
         | [] \<Rightarrow> next_loop k (s1\<lparr>workers := del_at (index s1) (workers s1)\<rparr>)))"

definition mux_next :: "'a mux \<Rightarrow> (py_error + 'a) \<times> 'a mux" where
  \<comment> \<open>\<^verbatim>\<open>__next__\<close>: \<^verbatim>\<open>num = len(self.workers)\<close>, then the loop.\<close>
  "mux_next s = next_loop (length (workers s)) s"

definition remaining :: "'a mux \<Rightarrow> nat" where
  "remaining s = length (concat (workers s))"

lemma concat_del_at_empty:
  "i < length ws \<Longrightarrow> ws ! i = [] \<Longrightarrow> concat (del_at i ws) = concat ws"
proof -
  assume a: "i < length ws" "ws ! i = []"
  have "concat ws = concat (take i ws @ ws ! i # drop (Suc i) ws)"
    using id_take_nth_drop [OF a(1)] by simp
  then show ?thesis using a(2) by (simp add: del_at_def)
qed

lemma mset_concat_update:
  "i < length ws \<Longrightarrow> ws ! i = x # rest \<Longrightarrow>
     mset (concat ws) = add_mset x (mset (concat (ws[i := rest])))"
proof -
  assume a: "i < length ws" "ws ! i = x # rest"
  have "concat ws = concat (take i ws @ ws ! i # drop (Suc i) ws)"
    using id_take_nth_drop [OF a(1)] by simp
  then show ?thesis using a by (simp add: upd_conv_take_nth_drop)
qed

lemma length_del_at: "i < length ws \<Longrightarrow> length (del_at i ws) = length ws - 1"
  by (simp add: del_at_def)

lemma next_loop_item:
  "next_loop k s = (Inr x, s') \<Longrightarrow>
     mset (concat (workers s)) = add_mset x (mset (concat (workers s')))"
proof (induction k arbitrary: s)
  case 0
  then show ?case by simp
next
  case (Suc k)
  show ?case
  proof (cases "length (workers s) = 0")
    case True
    with Suc.prems show ?thesis by simp
  next
    case False
    define i where "i = index s mod length (workers s)"
    have i: "i < length (workers s)" using False by (simp add: i_def)
    show ?thesis
    proof (cases "workers s ! i")
      case Nil
      with Suc.prems False
      have "next_loop k (s\<lparr>index := i, workers := del_at i (workers s)\<rparr>) = (Inr x, s')"
        by (simp add: Let_def i_def)
      from Suc.IH [OF this] show ?thesis
        using concat_del_at_empty [OF i Nil] by simp
    next
      case (Cons y rest)
      with Suc.prems False
      have "x = y" "workers s' = (workers s)[i := rest]"
        by (auto simp: Let_def i_def)
      then show ?thesis using mset_concat_update [OF i Cons] by simp
    qed
  qed
qed

lemma next_loop_stop:
  "next_loop k s = (Inl e, s') \<Longrightarrow> k \<le> length (workers s) \<Longrightarrow>
     e = StopIteration \<and> length (workers s') = length (workers s) - k
       \<and> concat (workers s') = concat (workers s)"
proof (induction k arbitrary: s)
  case 0
  then show ?case by simp
next
  case (Suc k)
  from Suc.prems(2) have ne: "length (workers s) \<noteq> 0" by auto
  define i where "i = index s mod length (workers s)"
  have i: "i < length (workers s)" using ne by (simp add: i_def)
  show ?case
  proof (cases "workers s ! i")
    case Nil
    let ?t = "s\<lparr>index := i, workers := del_at i (workers s)\<rparr>"
    from Nil Suc.prems(1) ne have run: "next_loop k ?t = (Inl e, s')"
      by (simp add: Let_def i_def)
    have "k \<le> length (workers ?t)"
      using Suc.prems(2) length_del_at [OF i] by simp
    from Suc.IH [OF run this] show ?thesis
      using concat_del_at_empty [OF i Nil] length_del_at [OF i] by simp
  next
    case (Cons y rest)
    with Suc.prems(1) ne show ?thesis by (simp add: Let_def i_def)
  qed
qed

lemma mux_next_item:
  "mux_next s = (Inr x, s') \<Longrightarrow>
     mset (concat (workers s)) = add_mset x (mset (concat (workers s')))"
  unfolding mux_next_def by (rule next_loop_item)

lemma mux_next_stop:
  "mux_next s = (Inl e, s') \<Longrightarrow>
     e = StopIteration \<and> workers s' = [] \<and> concat (workers s) = []"
  unfolding mux_next_def using next_loop_stop [of "length (workers s)" s e s'] by auto

lemma mux_next_decreases: "mux_next s = (Inr x, s') \<Longrightarrow> remaining s' < remaining s"
proof -
  assume "mux_next s = (Inr x, s')"
  from mux_next_item [OF this]
  have "size (mset (concat (workers s))) = Suc (size (mset (concat (workers s'))))" by simp
  then show ?thesis by (simp add: remaining_def)
qed

text \<open>
  The consumer: call \<^verbatim>\<open>__next__\<close> until it raises, collecting the items returned. The
  result is the items in the order yielded, the exception that ended the iteration and the
  final state.
\<close>

function consume :: "'a mux \<Rightarrow> 'a list \<times> py_error \<times> 'a mux" where
  "consume s =
     (case mux_next s of
        (Inl e, s') \<Rightarrow> ([], e, s')
      | (Inr x, s') \<Rightarrow> (case consume s' of (xs, e, s'') \<Rightarrow> (x # xs, e, s'')))"
  by pat_completeness auto
termination
  apply (relation "measure remaining")
   apply simp
  apply (simp add: mux_next_decreases [OF sym])
  done

lemma consume_all:
  "consume s = (items, e, s') \<Longrightarrow>
     e = StopIteration \<and> mset items = mset (concat (workers s)) \<and> workers s' = []"
proof (induction s arbitrary: items e s' rule: consume.induct)
  case (1 s)
  obtain r t where nx: "mux_next s = (r, t)" by (cases "mux_next s")
  show ?case
  proof (cases r)
    case (Inl err)
    with nx "1.prems" have "items = []" "e = err" "s' = t"
      by (simp_all add: consume.simps [of s])
    with mux_next_stop [of s err t] nx Inl show ?thesis by simp
  next
    case (Inr x)
    obtain xs e2 s2 where c: "consume t = (xs, e2, s2)" by (cases "consume t")
    with nx Inr "1.prems" have eq: "items = x # xs" "e = e2" "s' = s2"
      by (simp_all add: consume.simps [of s])
    have "e2 = StopIteration \<and> mset xs = mset (concat (workers t)) \<and> workers s2 = []"
      using "1.IH" [OF nx [symmetric] Inr c] .
    with eq mux_next_item [of s x t] nx Inr show ?thesis by simp
  qed
qed

text \<open>
  C8. Started on any list of finite workers, the multiplexer yields every item of every
  worker exactly once (the multiset of the items yielded is the multiset of all the
  workers' items, so their number is the total \<open>T\<close>), and the iteration ends with
  \<^verbatim>\<open>StopIteration\<close> and no other exception; every later call raises
  \<^verbatim>\<open>StopIteration\<close> again.
\<close>

theorem mux_yields_every_item_once:
  "\<exists>items s'. consume (mux_start ws c) = (items, StopIteration, s')
      \<and> mset items = mset (concat ws)
      \<and> length items = length (concat ws)
      \<and> workers s' = []
      \<and> mux_next s' = (Inl StopIteration, s')"
proof -
  obtain items e s' where c: "consume (mux_start ws c) = (items, e, s')"
    by (cases "consume (mux_start ws c)")
  from consume_all [OF c]
  have r: "e = StopIteration" "mset items = mset (concat ws)" "workers s' = []"
    by (simp_all add: mux_start_def)
  from r(2) have "size (mset items) = size (mset (concat ws))" by simp
  then have len: "length items = length (concat ws)" by simp
  have "mux_next s' = (Inl StopIteration, s')"
    using r(3) by (simp add: mux_next_def)
  with c r len show ?thesis by simp
qed


section \<open>Binary64 floating point\<close>

text \<open>
  A Python \<^verbatim>\<open>float\<close> and a numpy \<^verbatim>\<open>float64\<close> are IEEE 754 binary64 numbers: a finite
  number with its sign and its magnitude (so \<open>Float True 0\<close> is \<^verbatim>\<open>-0.0\<close>), an infinity with
  its sign, or \<^verbatim>\<open>nan\<close>. The magnitude of a finite number is an integer of at most 53 bits
  times a power of two that is at least \<open>2^-1074\<close>, and it is below \<open>2^1024\<close>.

  An operation computes the exact result and rounds it to the nearest binary64 number, a
  tie going to the even significand (\<open>round_magnitude\<close>: \<open>None\<close> when the rounded magnitude
  reaches \<open>2^1024\<close>). numpy arithmetic raises nothing: it returns an infinity on overflow
  and on a division of a number other than zero by zero, and \<^verbatim>\<open>nan\<close> on an undefined
  operation.
\<close>

datatype float64 = Float (negative: bool) (magnitude: real) | Infinity bool | NaN

definition ilog2 :: "real \<Rightarrow> int" where
  \<comment> \<open>\<open>\<lfloor>log\<^sub>2 x\<rfloor>\<close> for \<open>x > 0\<close>\<close>
  "ilog2 x = (if 1 \<le> x then bitlen \<lfloor>x\<rfloor> - 1 else - bitlen (\<lceil>1 / x\<rceil> - 1))"

definition round_half_even :: "real \<Rightarrow> int" where
  "round_half_even z =
     (let f = \<lfloor>z\<rfloor>; d = z - of_int f
      in if d < 1 / 2 then f else if 1 / 2 < d then f + 1 else if even f then f else f + 1)"

definition round_magnitude :: "real \<Rightarrow> real option" where
  \<comment> \<open>\<open>e\<close> is the exponent of the last of the 53 bits, or the least exponent there is.\<close>
  "round_magnitude x =
     (if x = 0 then Some 0
      else
        let e = max (ilog2 x - 52) (- 1074);
            y = of_int (round_half_even (x / 2 powi e)) * 2 powi e
        in if y < 2 ^ 1024 then Some y else None)"

definition round_to :: "bool \<Rightarrow> real \<Rightarrow> float64" where
  \<comment> \<open>the binary64 number for an exact result with the given sign and magnitude\<close>
  "round_to s x = (case round_magnitude x of Some m \<Rightarrow> Float s m | None \<Rightarrow> Infinity s)"

definition signed :: "bool \<Rightarrow> real \<Rightarrow> real" where
  "signed s m = (if s then - m else m)"

fun float_sub :: "float64 \<Rightarrow> float64 \<Rightarrow> float64" where
  "float_sub (Float s m) (Float s' m') =
     (let r = signed s m - signed s' m'
      in if r = 0 then Float (s \<and> \<not> s') 0 else round_to (r < 0) \<bar>r\<bar>)"
| "float_sub (Float s m) (Infinity s') = Infinity (\<not> s')"
| "float_sub (Infinity s) (Float s' m') = Infinity s"
| "float_sub (Infinity s) (Infinity s') = (if s = s' then NaN else Infinity s)"
| "float_sub _ _ = NaN"

fun float_mul :: "float64 \<Rightarrow> float64 \<Rightarrow> float64" where
  "float_mul (Float s m) (Float s' m') = round_to (s \<noteq> s') (m * m')"
| "float_mul (Float s m) (Infinity s') = (if m = 0 then NaN else Infinity (s \<noteq> s'))"
| "float_mul (Infinity s) (Float s' m') = (if m' = 0 then NaN else Infinity (s \<noteq> s'))"
| "float_mul (Infinity s) (Infinity s') = Infinity (s \<noteq> s')"
| "float_mul _ _ = NaN"

fun float_div :: "float64 \<Rightarrow> float64 \<Rightarrow> float64" where
  "float_div (Float s m) (Float s' m') =
     (if m' = 0 then (if m = 0 then NaN else Infinity (s \<noteq> s'))
      else round_to (s \<noteq> s') (m / m'))"
| "float_div (Float s m) (Infinity s') = Float (s \<noteq> s') 0"
| "float_div (Infinity s) (Float s' m') = Infinity (s \<noteq> s')"
| "float_div _ _ = NaN"

fun float_less :: "float64 \<Rightarrow> float64 \<Rightarrow> bool" where
  "float_less (Float s m) (Float s' m') = (signed s m < signed s' m')"
| "float_less (Float s m) (Infinity s') = (\<not> s')"
| "float_less (Infinity s) (Float s' m') = s"
| "float_less (Infinity s) (Infinity s') = (s \<and> \<not> s')"
| "float_less _ _ = False"

text \<open>
  Python's own conversions and divisions raise. \<^verbatim>\<open>int(x)\<close> truncates a finite float toward
  zero and raises on an infinity and on \<^verbatim>\<open>nan\<close>. A Python \<^verbatim>\<open>int\<close> that meets a float in an
  operation or a comparison is converted first, rounded like every exact result, and
  \<^verbatim>\<open>OverflowError\<close> is raised when it is out of range. \<^verbatim>\<open>a / b\<close> on two ints is the
  rounded exact quotient. The items of \<^verbatim>\<open>np.arange\<close> are machine integers, whose conversion
  cannot overflow.
\<close>

fun int_of_float :: "float64 \<Rightarrow> py_error + int" where
  \<comment> \<open>\<^verbatim>\<open>int(x)\<close>\<close>
  "int_of_float (Float s m) = Inr (if s then - \<lfloor>m\<rfloor> else \<lfloor>m\<rfloor>)"
| "int_of_float (Infinity s) = Inl OverflowError"
| "int_of_float NaN = Inl ValueError"

definition float_of_int :: "int \<Rightarrow> py_error + float64" where
  "float_of_int v =
     (case round_magnitude \<bar>of_int v\<bar> of
        Some m \<Rightarrow> Inr (Float (v < 0) m)
      | None \<Rightarrow> Inl OverflowError)"

definition int_truediv :: "int \<Rightarrow> int \<Rightarrow> py_error + float64" where
  \<comment> \<open>\<^verbatim>\<open>a / b\<close> on two ints\<close>
  "int_truediv a b =
     (if b = 0 then Inl ZeroDivisionError
      else case round_magnitude (\<bar>of_int a\<bar> / \<bar>of_int b\<bar>) of
             Some m \<Rightarrow> Inr (Float ((a < 0) \<noteq> (b < 0)) m)
           | None \<Rightarrow> Inl OverflowError)"

definition float_truediv_int :: "float64 \<Rightarrow> int \<Rightarrow> py_error + float64" where
  \<comment> \<open>\<^verbatim>\<open>x / k\<close> on a Python float and an int\<close>
  "float_truediv_int x k =
     bindE (float_of_int k) (\<lambda>y.
     if y = Float False 0 then Inl ZeroDivisionError else Inr (float_div x y))"

definition float_of_index :: "nat \<Rightarrow> float64" where
  \<comment> \<open>an item of \<^verbatim>\<open>np.arange(n)\<close> as a \<^verbatim>\<open>float64\<close>\<close>
  "float_of_index i = round_to False (real i)"

lemmas float64_eval =
  ilog2_def round_half_even_def round_magnitude_def round_to_def signed_def float_of_int_def
  int_truediv_def float_truediv_int_def float_of_index_def compute_bitlen

subsection \<open>Bounds on a rounded result\<close>

lemma round_half_even_bounds:
  assumes "0 \<le> z"
  shows "0 \<le> round_half_even z" and "of_int (round_half_even z) \<le> 2 * z"
proof -
  let ?f = "\<lfloor>z\<rfloor>"
  have f: "0 \<le> ?f" "of_int ?f \<le> z" using assms by simp_all
  then show "0 \<le> round_half_even z" by (simp add: round_half_even_def Let_def)
  have up: "of_int (?f + 1) \<le> 2 * z" if "\<not> z - of_int ?f < 1 / 2"
  proof -
    have "(0::real) \<le> of_int ?f" using f(1) by simp
    moreover have "of_int (?f + 1) = (of_int ?f :: real) + 1" by simp
    ultimately show ?thesis using that by linarith
  qed
  have down: "(of_int ?f :: real) \<le> 2 * z" using f(2) assms by linarith
  show "of_int (round_half_even z) \<le> 2 * z"
    using up down unfolding round_half_even_def Let_def by (simp only: split: if_splits) metis
qed

lemma round_magnitude_bounds:
  assumes "0 \<le> x" and "round_magnitude x = Some m"
  shows "0 \<le> m" and "m \<le> 2 * x"
proof -
  define p :: real where "p = 2 powi (max (ilog2 x - 52) (- 1074))"
  have p: "0 < p" by (simp add: p_def)
  have z: "0 \<le> x / p" using assms(1) p by simp
  have m: "x \<noteq> 0 \<Longrightarrow> m = of_int (round_half_even (x / p)) * p"
    using assms(2) by (simp add: round_magnitude_def Let_def p_def split: if_splits)
  have m0: "x = 0 \<Longrightarrow> m = 0"
    using assms(2) by (simp add: round_magnitude_def)
  show "0 \<le> m"
    using m m0 round_half_even_bounds(1) [OF z] p by (cases "x = 0") simp_all
  have "of_int (round_half_even (x / p)) * p \<le> 2 * (x / p) * p"
    using round_half_even_bounds(2) [OF z] p by (simp only: mult_le_cancel_right_pos)
  then show "m \<le> 2 * x"
    using m m0 p by (cases "x = 0") simp_all
qed

lemma round_magnitude_finite:
  assumes "0 \<le> x" and "x < 2 ^ 1023"
  shows "\<exists>m. round_magnitude x = Some m"
proof (cases "round_magnitude x")
  case (Some m)
  then show ?thesis by simp
next
  case None
  define p :: real where "p = 2 powi (max (ilog2 x - 52) (- 1074))"
  have p: "0 < p" by (simp add: p_def)
  have z: "0 \<le> x / p" using assms(1) p by simp
  have "of_int (round_half_even (x / p)) * p \<le> 2 * (x / p) * p"
    using round_half_even_bounds(2) [OF z] p by (simp only: mult_le_cancel_right_pos)
  then have "of_int (round_half_even (x / p)) * p \<le> 2 * x" using p by simp
  also have "\<dots> < 2 ^ 1024" using assms(2) by simp
  finally have "of_int (round_half_even (x / p)) * p < 2 ^ 1024" .
  with None show ?thesis
    by (simp add: round_magnitude_def Let_def p_def split: if_splits)
qed

lemma round_to_cases:
  assumes "0 \<le> x"
  obtains m where "round_to s x = Float s m" and "0 \<le> m" and "m \<le> 2 * x"
  | "round_to s x = Infinity s"
  using assms round_magnitude_bounds [of x]
  by (cases "round_magnitude x") (auto simp: round_to_def)

lemma round_to_finite:
  assumes "0 \<le> x" and "x < 2 ^ 1023"
  obtains m where "round_to s x = Float s m" and "0 \<le> m" and "m \<le> 2 * x"
  using assms round_magnitude_finite [of x] round_magnitude_bounds [of x]
  by (auto simp: round_to_def)

section \<open>Events and time normalization (\<^verbatim>\<open>_trim_time_shifts\<close>)\<close>

text \<open>
  \<^verbatim>\<open>Event\<close> and \<^verbatim>\<open>EventType\<close> come from the tokenizer module: an event is a type and an
  integer value. Only \<^verbatim>\<open>TIME_SHIFT\<close> and the four curve-anchor types are named by the
  dataset code; every other member of the enumeration is \<open>OTHER_TYPE\<close> with its name.

  The start time of a window is an item of the numpy array \<^verbatim>\<open>frame_times\<close>, and
  \<^verbatim>\<open>STEPS_PER_MILLISECOND = 0.1\<close> is the binary64 number nearest to one tenth. The new
  value of a \<^verbatim>\<open>TIME_SHIFT\<close> event is
  \<^verbatim>\<open>int((event.value - start_time) * STEPS_PER_MILLISECOND)\<close>: the value is converted, the
  difference and the product are rounded, and \<^verbatim>\<open>int\<close> truncates.
\<close>

datatype event_type =
  TIME_SHIFT | BEZIER_ANCHOR | PERFECT_ANCHOR | CATMULL_ANCHOR | RED_ANCHOR | OTHER_TYPE string

datatype event = Event (etype: event_type) (evalue: int)

definition STEPS_PER_MILLISECOND :: float64 where
  "STEPS_PER_MILLISECOND = round_to False (1 / 10)"

definition time_shift_value :: "int \<Rightarrow> float64 \<Rightarrow> py_error + int" where
  "time_shift_value v start_time =
     bindE (float_of_int v) (\<lambda>x.
     int_of_float (float_mul (float_sub x start_time) STEPS_PER_MILLISECOND))"

text \<open>
  The first loop of \<^verbatim>\<open>process\<close>: each \<^verbatim>\<open>TIME_SHIFT\<close> entry is replaced by a new event, in
  the order of the list.
\<close>

definition rewrite_time_shifts :: "event list \<Rightarrow> float64 \<Rightarrow> py_error + event list" where
  "rewrite_time_shifts events start_time =
     collect (\<lambda>event.
                if etype event = TIME_SHIFT
                then bindE (time_shift_value (evalue event) start_time)
                       (\<lambda>v. Inr (Event TIME_SHIFT v))
                else Inr event) events"

text \<open>
  The second loop, \<^verbatim>\<open>for i in range(len(events) - 1, -1, -1)\<close>: the first argument is
  \<open>i + 1\<close>, the second the flag \<^verbatim>\<open>delete_next_time_shift\<close>. The index is always in
  range, since a deletion at \<open>i\<close> leaves the entries below \<open>i\<close> in place.
\<close>

fun delete_scan :: "nat \<Rightarrow> bool \<Rightarrow> event list \<Rightarrow> event list" where
  "delete_scan 0 delete_next_time_shift events = events"
| "delete_scan (Suc i) delete_next_time_shift events =
     (if etype (events ! i) = TIME_SHIFT \<and> delete_next_time_shift
      then delete_scan i False (del_at i events)
      else if etype (events ! i) \<in> set [BEZIER_ANCHOR, PERFECT_ANCHOR, CATMULL_ANCHOR, RED_ANCHOR]
      then delete_scan i True events
      else delete_scan i delete_next_time_shift events)"

definition process :: "event list \<Rightarrow> float64 \<Rightarrow> py_error + event list" where
  "process events start_time =
     bindE (rewrite_time_shifts events start_time) (\<lambda>events.
     Inr (delete_scan (length events) False events))"

text \<open>
  A numpy array of two dimensions: its second dimension and its rows. Every array the
  pipeline builds has rows of length \<open>ncols\<close>. Audio samples are not computed with: they
  are copied and padded with zeros, and stand as the numbers they are.
\<close>

datatype ndarray2 = Array2 (ncols: nat) (rows: "real list list")

text \<open>
  The dictionary \<^verbatim>\<open>sequence\<close> that \<^verbatim>\<open>_create_sequences\<close> builds. The key \<^verbatim>\<open>time\<close> is
  deleted by \<^verbatim>\<open>_trim_time_shifts\<close>, so it is optional and reading it when absent is a
  \<^verbatim>\<open>KeyError\<close>; \<^verbatim>\<open>pre_events\<close> is present or not; the three keys of the guide beatmap
  (\<^verbatim>\<open>other_events\<close>, \<^verbatim>\<open>other_beatmap_idx\<close>, \<^verbatim>\<open>other_difficulty\<close>) are set together.
\<close>

record other_context =
  other_events :: "event list"
  other_beatmap_idx :: int
  other_difficulty :: real

record sequence =
  time :: "float64 option"
  frames :: ndarray2
  events :: "event list"
  beatmap_idx :: int
  difficulty :: real
  pre_events :: "event list option"
  other :: "other_context option"

definition trim_time_shifts :: "sequence \<Rightarrow> py_error + sequence" where
  "trim_time_shifts sequence =
     (case time sequence of
        None \<Rightarrow> Inl KeyError
      | Some start_time \<Rightarrow>
          bindE (process (events sequence) start_time) (\<lambda>events1.
          bindE (case pre_events sequence of
                   None \<Rightarrow> Inr None
                 | Some l \<Rightarrow> bindE (process l start_time) (\<lambda>l'. Inr (Some l')))
            (\<lambda>pre_events1.
          bindE (case other sequence of
                   None \<Rightarrow> Inr None
                 | Some c \<Rightarrow> bindE (process (other_events c) start_time)
                               (\<lambda>l'. Inr (Some (c\<lparr>other_events := l'\<rparr>))))
            (\<lambda>other1.
          Inr (sequence\<lparr>time := None, events := events1, pre_events := pre_events1,
                         other := other1\<rparr>)))))"

subsection \<open>Vocabulary for the statements\<close>

definition attached_lists :: "sequence \<Rightarrow> event list list" where
  \<comment> \<open>The event lists of a window: main, pre-context when present, guide when present.\<close>
  "attached_lists sequence =
     events sequence
       # (case pre_events sequence of None \<Rightarrow> [] | Some l \<Rightarrow> [l])
       @ (case other sequence of None \<Rightarrow> [] | Some c \<Rightarrow> [other_events c])"

definition is_anchor :: "event \<Rightarrow> bool" where
  "is_anchor e = (etype e \<in> set [BEZIER_ANCHOR, PERFECT_ANCHOR, CATMULL_ANCHOR, RED_ANCHOR])"

definition scan_from :: "bool \<Rightarrow> event list \<Rightarrow> event list" where
  \<comment> \<open>The whole reverse scan of a list, started with the given flag.\<close>
  "scan_from d xs = delete_scan (length xs) d xs"

fun anchor_pending :: "bool \<Rightarrow> event list \<Rightarrow> bool" where
  \<comment> \<open>The flag when the reverse scan, started with \<open>d\<close> at the end of the list, has passed the
     whole list: an anchor occurs before the first \<^verbatim>\<open>TIME_SHIFT\<close>.\<close>
  "anchor_pending d [] = d"
| "anchor_pending d (e # es) =
     (if etype e = TIME_SHIFT then False else if is_anchor e then True else anchor_pending d es)"

fun shift_before_anchor :: "event list \<Rightarrow> bool" where
  \<comment> \<open>Some \<^verbatim>\<open>TIME_SHIFT\<close> is followed by an anchor with no \<^verbatim>\<open>TIME_SHIFT\<close> in between.\<close>
  "shift_before_anchor [] = False"
| "shift_before_anchor (e # es) =
     ((etype e = TIME_SHIFT \<and> anchor_pending False es) \<or> shift_before_anchor es)"

definition renormalization_fixed :: "event list \<Rightarrow> bool" where
  "renormalization_fixed es =
     ((\<forall>e\<in>set es. etype e = TIME_SHIFT \<longrightarrow> evalue e = 0) \<and> \<not> shift_before_anchor es)"

definition demo_sequence :: "event list \<Rightarrow> sequence" where
  \<comment> \<open>A window of one frame of four samples at time 0, for the concrete instances.\<close>
  "demo_sequence es =
     \<lparr>time = Some (Float False 0), frames = Array2 4 [[1, 2, 3, 4]], events = es,
      beatmap_idx = 7, difficulty = 5, pre_events = Some es, other = None\<rparr>"

definition frame_time_225 :: float64 where
  \<comment> \<open>\<^verbatim>\<open>224.99999999999997\<close>, the time of frame 6 at sample rate 8000 and hop length 300\<close>
  "frame_time_225 = Float False (7916483719987199 / 35184372088832)"

subsection \<open>The reverse scan as a forward recursion\<close>

lemma delete_scan_append:
  "delete_scan (length xs) d (xs @ ys) = delete_scan (length xs) d xs @ ys"
proof (induction xs arbitrary: d ys rule: rev_induct)
  case Nil
  then show ?case by simp
next
  case (snoc x xs)
  have a: "del_at (length xs) (xs @ x # zs) = xs @ zs" for zs
    by (simp add: del_at_def)
  have b: "(xs @ x # zs) ! length xs = x" for zs by simp
  show ?case
    using snoc.IH [of _ "x # ys"] snoc.IH [of _ "[x]"] snoc.IH [of _ ys] snoc.IH [of _ "[]"]
      a [of ys] a [of "[]"]
    by (simp add: b)
qed

lemma scan_from_Nil: "scan_from d [] = []"
  by (simp add: scan_from_def)

lemma scan_from_snoc:
  "scan_from d (xs @ [x]) =
     (if etype x = TIME_SHIFT \<and> d then scan_from False xs
      else if is_anchor x then scan_from True xs @ [x]
      else scan_from d xs @ [x])"
  using delete_scan_append [of xs _ "[x]"]
  by (simp add: is_anchor_def del_at_def scan_from_def)

lemma anchor_pending_snoc:
  "anchor_pending d (ys @ [y]) =
     anchor_pending (if etype y = TIME_SHIFT then False else if is_anchor y then True else d) ys"
  by (induction ys) auto

lemma scan_from_Cons:
  "scan_from d (x # xs) =
     (if etype x = TIME_SHIFT \<and> anchor_pending d xs then scan_from d xs
      else x # scan_from d xs)"
proof (induction xs arbitrary: d rule: rev_induct)
  case Nil
  show ?case using scan_from_snoc [of d "[]" x] by (simp add: scan_from_Nil)
next
  case (snoc y ys)
  have "scan_from d (x # ys @ [y]) = scan_from d ((x # ys) @ [y])" by simp
  also have "\<dots> = (if etype y = TIME_SHIFT \<and> d then scan_from False (x # ys)
      else if is_anchor y then scan_from True (x # ys) @ [y]
      else scan_from d (x # ys) @ [y])"
    by (rule scan_from_snoc)
  finally show ?case
    by (cases d)
       (auto simp: snoc.IH scan_from_snoc [of _ ys y] anchor_pending_snoc is_anchor_def)
qed

lemma scan_from_length: "length (scan_from d xs) \<le> length xs"
  by (induction xs) (auto simp: scan_from_Cons scan_from_Nil)

lemma scan_from_subseq: "subseq (scan_from d xs) xs"
  by (induction xs) (auto simp: scan_from_Cons scan_from_Nil)

lemma anchor_pending_append_shift:
  "etype e = TIME_SHIFT \<Longrightarrow> anchor_pending d (xs @ e # rest) = anchor_pending False xs"
  by (induction xs) auto

lemma scan_from_append_shift:
  "etype e = TIME_SHIFT \<Longrightarrow>
     scan_from d (xs @ e # rest) = scan_from False xs @ scan_from d (e # rest)"
  by (induction xs) (simp_all add: scan_from_Cons scan_from_Nil anchor_pending_append_shift)

lemma anchor_pending_mid_anchor:
  "\<forall>e\<in>set mid. etype e \<noteq> TIME_SHIFT \<Longrightarrow> is_anchor a \<Longrightarrow> anchor_pending d (mid @ a # ys)"
  by (induction mid) (auto simp: is_anchor_def)

lemma scan_from_mid_anchor:
  "\<forall>e\<in>set mid. etype e \<noteq> TIME_SHIFT \<Longrightarrow> is_anchor a \<Longrightarrow>
     scan_from d (mid @ a # ys) = mid @ a # scan_from d ys"
  by (induction mid) (auto simp: scan_from_Cons is_anchor_def)

lemma anchor_pending_plain:
  "\<forall>e\<in>set mid. etype e \<noteq> TIME_SHIFT \<and> \<not> is_anchor e \<Longrightarrow>
     anchor_pending d (mid @ rest) = anchor_pending d rest"
  by (induction mid) auto

lemma scan_from_plain:
  "\<forall>e\<in>set mid. etype e \<noteq> TIME_SHIFT \<Longrightarrow> scan_from d (mid @ rest) = mid @ scan_from d rest"
  by (induction mid) (auto simp: scan_from_Cons)

lemma scan_from_fixed: "\<not> shift_before_anchor xs \<Longrightarrow> scan_from False xs = xs"
  by (induction xs) (auto simp: scan_from_Cons scan_from_Nil)

lemma scan_from_shorter: "shift_before_anchor xs \<Longrightarrow> length (scan_from False xs) < length xs"
proof (induction xs)
  case Nil
  then show ?case by simp
next
  case (Cons x xs)
  show ?case
  proof (cases "etype x = TIME_SHIFT \<and> anchor_pending False xs")
    case True
    then show ?thesis using scan_from_length [of False xs] by (simp add: scan_from_Cons)
  next
    case False
    with Cons show ?thesis by (auto simp: scan_from_Cons)
  qed
qed

subsection \<open>The two passes\<close>

lemma bindE_Inr: "bindE m f = Inr y \<longleftrightarrow> (\<exists>x. m = Inr x \<and> f x = Inr y)"
  by (cases m) (simp_all add: bindE_def)

lemma bindE_simps:
  "bindE (Inl e) f = Inl e"
  "bindE (Inr x) f = f x"
  by (simp_all add: bindE_def)

lemma collect_append:
  "collect f (xs @ ys) = bindE (collect f xs) (\<lambda>a. bindE (collect f ys) (\<lambda>b. Inr (a @ b)))"
proof (induction xs)
  case Nil
  then show ?case by (cases "collect f ys") (simp_all add: bindE_simps)
next
  case (Cons x xs)
  show ?case
    by (cases "f x"; cases "collect f xs"; cases "collect f ys")
       (simp_all add: Cons bindE_simps)
qed

lemma collect_nth:
  "collect f xs = Inr ys \<Longrightarrow> length ys = length xs \<and> (\<forall>i<length xs. f (xs ! i) = Inr (ys ! i))"
proof (induction xs arbitrary: ys)
  case Nil
  then show ?case by simp
next
  case (Cons x xs)
  from Cons.prems obtain y ys' where
    y: "f x = Inr y" and ys': "collect f xs = Inr ys'" and ys: "ys = y # ys'"
    by (auto simp: bindE_Inr)
  from Cons.IH [OF ys'] y ys show ?case by (auto simp: nth_Cons split: nat.splits)
qed

lemma collect_total:
  "\<forall>x\<in>set xs. \<exists>y. f x = Inr y \<Longrightarrow> \<exists>ys. collect f xs = Inr ys"
  by (induction xs) (auto simp: bindE_simps)

lemma collect_same:
  "\<forall>x\<in>set xs. f x = Inr x \<Longrightarrow> collect f xs = Inr xs"
  by (induction xs) (simp_all add: bindE_simps)

lemma process_scan:
  "process es t = bindE (rewrite_time_shifts es t) (\<lambda>r. Inr (scan_from False r))"
  by (simp add: process_def scan_from_def)

lemma rewrite_append:
  "rewrite_time_shifts (xs @ ys) t =
     bindE (rewrite_time_shifts xs t) (\<lambda>a.
     bindE (rewrite_time_shifts ys t) (\<lambda>b. Inr (a @ b)))"
  by (simp add: rewrite_time_shifts_def collect_append)

lemma rewrite_no_shift:
  "\<forall>e\<in>set xs. etype e \<noteq> TIME_SHIFT \<Longrightarrow> rewrite_time_shifts xs t = Inr xs"
  by (simp add: rewrite_time_shifts_def collect_same)

lemma rewrite_shift_Cons:
  "rewrite_time_shifts (Event TIME_SHIFT v # zs) t =
     bindE (time_shift_value v t) (\<lambda>w.
     bindE (rewrite_time_shifts zs t) (\<lambda>b. Inr (Event TIME_SHIFT w # b)))"
  by (cases "time_shift_value v t") (simp_all add: rewrite_time_shifts_def bindE_simps)

lemma rewrite_other_Cons:
  "etype a \<noteq> TIME_SHIFT \<Longrightarrow>
     rewrite_time_shifts (a # zs) t = bindE (rewrite_time_shifts zs t) (\<lambda>b. Inr (a # b))"
  by (simp add: rewrite_time_shifts_def bindE_simps)

lemma rewrite_nth:
  assumes "rewrite_time_shifts es t = Inr r"
  shows "length r = length es"
    and "i < length es \<Longrightarrow> etype (es ! i) \<noteq> TIME_SHIFT \<Longrightarrow> r ! i = es ! i"
    and "i < length es \<Longrightarrow> etype (es ! i) = TIME_SHIFT \<Longrightarrow>
           \<exists>w. time_shift_value (evalue (es ! i)) t = Inr w \<and> r ! i = Event TIME_SHIFT w"
proof -
  note c = collect_nth [OF assms [unfolded rewrite_time_shifts_def]]
  from c show "length r = length es" by simp
  show "r ! i = es ! i" if "i < length es" "etype (es ! i) \<noteq> TIME_SHIFT"
    using c that by auto
  show "\<exists>w. time_shift_value (evalue (es ! i)) t = Inr w \<and> r ! i = Event TIME_SHIFT w"
    if "i < length es" "etype (es ! i) = TIME_SHIFT"
  proof -
    from c that have "bindE (time_shift_value (evalue (es ! i)) t) (\<lambda>v. Inr (Event TIME_SHIFT v))
                        = Inr (r ! i)"
      by auto
    then show ?thesis by (auto simp: bindE_Inr)
  qed
qed

lemma rewrite_types:
  assumes "rewrite_time_shifts es t = Inr r"
  shows "map etype r = map etype es"
proof (rule nth_equalityI)
  show "length (map etype r) = length (map etype es)"
    using rewrite_nth(1) [OF assms] by simp
  fix i
  assume "i < length (map etype r)"
  then have i: "i < length es" using rewrite_nth(1) [OF assms] by simp
  then have "etype (r ! i) = etype (es ! i)"
    using rewrite_nth(2) [OF assms i] rewrite_nth(3) [OF assms i]
    by (cases "etype (es ! i) = TIME_SHIFT") auto
  with i show "map etype r ! i = map etype es ! i"
    using rewrite_nth(1) [OF assms] by simp
qed

lemma anchor_pending_types:
  "map etype xs = map etype ys \<Longrightarrow> anchor_pending d xs = anchor_pending d ys"
proof (induction xs arbitrary: ys)
  case Nil
  then show ?case by simp
next
  case (Cons x xs)
  then obtain y ys' where "ys = y # ys'" "etype x = etype y" "map etype xs = map etype ys'"
    by (cases ys) auto
  with Cons.IH [of ys'] show ?case by (simp add: is_anchor_def)
qed

subsection \<open>The value of a shift\<close>

lemma steps_value:
  "STEPS_PER_MILLISECOND = Float False (3602879701896397 / 36028797018963968)"
  by (simp add: STEPS_PER_MILLISECOND_def float64_eval Let_def)

lemma float_of_int_cases:
  assumes "float_of_int v = Inr x"
  obtains m where "x = Float (v < 0) m" and "0 \<le> m" and "m \<le> 2 * \<bar>of_int v\<bar>"
  using assms round_magnitude_bounds [of "\<bar>of_int v\<bar>"]
  by (cases "round_magnitude \<bar>of_int v\<bar>") (auto simp: float_of_int_def)

lemma float_sub_zero_cases:
  assumes "0 \<le> m"
  obtains s' m' where "float_sub (Float s m) (Float z 0) = Float s' m'"
      and "0 \<le> m'" and "m' \<le> 2 * m"
  | s' where "float_sub (Float s m) (Float z 0) = Infinity s'"
proof (cases "m = 0")
  case True
  then have "float_sub (Float s m) (Float z 0) = Float (s \<and> \<not> z) 0"
    by (simp add: signed_def)
  with True that(1) show ?thesis by simp
next
  case False
  with assms have "float_sub (Float s m) (Float z 0) = round_to (signed s m < 0) m"
    by (auto simp: signed_def Let_def)
  with round_to_cases [OF assms, of "signed s m < 0"] that show ?thesis by metis
qed

lemma float_mul_steps_cases:
  assumes "0 \<le> m"
  obtains m' where "float_mul (Float s m) STEPS_PER_MILLISECOND = Float s m'"
      and "0 \<le> m'" and "100 * m' \<le> 21 * m"
  | "float_mul (Float s m) STEPS_PER_MILLISECOND = Infinity s"
proof -
  let ?c = "3602879701896397 / 36028797018963968 :: real"
  have x: "0 \<le> m * ?c" using assms by simp
  have eq: "float_mul (Float s m) STEPS_PER_MILLISECOND = round_to s (m * ?c)"
    by (simp add: steps_value)
  show ?thesis
  proof (rule round_to_cases [OF x, of s])
    fix m'
    assume r: "round_to s (m * ?c) = Float s m'" and m': "0 \<le> m'" "m' \<le> 2 * (m * ?c)"
    from m'(2) assms have "100 * m' \<le> 21 * m" by simp
    with r m'(1) eq that(1) show ?thesis by simp
  next
    assume "round_to s (m * ?c) = Infinity s"
    with eq that(2) show ?thesis by simp
  qed
qed

lemma time_shift_value_zero:
  "time_shift_value v (Float z 0) = Inr v \<longleftrightarrow> v = 0"
proof
  assume "v = 0"
  then show "time_shift_value v (Float z 0) = Inr v"
    by (cases z) (simp_all add: time_shift_value_def steps_value float64_eval bindE_simps Let_def)
next
  assume a: "time_shift_value v (Float z 0) = Inr v"
  then obtain x where x: "float_of_int v = Inr x"
    and r: "int_of_float (float_mul (float_sub x (Float z 0)) STEPS_PER_MILLISECOND) = Inr v"
    by (auto simp: time_shift_value_def bindE_Inr)
  from x obtain m1 where m1: "x = Float (v < 0) m1" "0 \<le> m1" "m1 \<le> 2 * \<bar>of_int v\<bar>"
    by (rule float_of_int_cases)
  show "v = 0"
  proof (rule float_sub_zero_cases [OF m1(2), of "v < 0" z])
    fix s2 m2
    assume s: "float_sub (Float (v < 0) m1) (Float z 0) = Float s2 m2"
      and m2: "0 \<le> m2" "m2 \<le> 2 * m1"
    show ?thesis
    proof (rule float_mul_steps_cases [OF m2(1), of s2])
      fix m3
      assume p: "float_mul (Float s2 m2) STEPS_PER_MILLISECOND = Float s2 m3"
        and m3: "0 \<le> m3" "100 * m3 \<le> 21 * m2"
      from r m1(1) s p have v: "v = (if s2 then - \<lfloor>m3\<rfloor> else \<lfloor>m3\<rfloor>)" by simp
      have "0 \<le> \<lfloor>m3\<rfloor>" using m3(1) by simp
      with v have "\<bar>v\<bar> = \<lfloor>m3\<rfloor>" by (simp split: if_splits)
      then have "\<bar>of_int v :: real\<bar> = of_int \<lfloor>m3\<rfloor>" by (metis of_int_abs)
      also have "\<dots> \<le> m3" by simp
      finally have "\<bar>of_int v :: real\<bar> \<le> m3" .
      with m3(2) m2(2) m1(3) have "\<bar>of_int v :: real\<bar> \<le> 0" by linarith
      then show ?thesis by simp
    next
      assume "float_mul (Float s2 m2) STEPS_PER_MILLISECOND = Infinity s2"
      with r m1(1) s show ?thesis by simp
    qed
  next
    fix s2
    assume "float_sub (Float (v < 0) m1) (Float z 0) = Infinity s2"
    with r m1(1) show ?thesis by (simp add: steps_value)
  qed
qed

lemma float_sub_finite:
  assumes "0 \<le> m" and "0 \<le> m'" and "m + m' < 2 ^ 1023"
  obtains s2 m2 where "float_sub (Float s m) (Float s' m') = Float s2 m2"
    and "0 \<le> m2" and "m2 \<le> 2 * (m + m')"
proof (cases "signed s m - signed s' m' = 0")
  case True
  then have "float_sub (Float s m) (Float s' m') = Float (s \<and> \<not> s') 0" by simp
  with assms that show ?thesis by simp
next
  case False
  let ?r = "signed s m - signed s' m'"
  have b: "\<bar>?r\<bar> \<le> m + m'" using assms(1,2) by (auto simp: signed_def)
  with assms(3) have lt: "\<bar>?r\<bar> < 2 ^ 1023" by linarith
  have eq: "float_sub (Float s m) (Float s' m') = round_to (?r < 0) \<bar>?r\<bar>"
    using False by (simp add: Let_def)
  show ?thesis
  proof (rule round_to_finite [OF _ lt, of "?r < 0"])
    show "0 \<le> \<bar>?r\<bar>" by simp
    fix m2
    assume "round_to (?r < 0) \<bar>?r\<bar> = Float (?r < 0) m2" "0 \<le> m2" "m2 \<le> 2 * \<bar>?r\<bar>"
    with eq b that show ?thesis by simp
  qed
qed

lemma time_shift_value_total:
  assumes "0 \<le> m" and "m \<le> 2 ^ 1000" and "\<bar>v\<bar> \<le> 2 ^ 1000"
  shows "\<exists>w. time_shift_value v (Float s m) = Inr w"
proof -
  let ?v = "\<bar>of_int v :: real\<bar>"
  have "?v = of_int \<bar>v\<bar>" by simp
  also have "\<dots> \<le> of_int (2 ^ 1000)" using assms(3) by (simp only: of_int_le_iff)
  finally have v: "?v \<le> 2 ^ 1000" by simp
  have "(2::real) ^ 1000 < 2 ^ 1023" by simp
  with v have "?v < 2 ^ 1023" by linarith
  then obtain m1 where r1: "round_magnitude ?v = Some m1"
    using round_magnitude_finite [of ?v] by auto
  note b1 = round_magnitude_bounds [OF _ r1]
  have x: "float_of_int v = Inr (Float (v < 0) m1)" by (simp add: float_of_int_def r1)
  have "m1 + m \<le> 3 * 2 ^ 1000" using b1 v assms(2) by simp
  moreover have "(3::real) * 2 ^ 1000 < 2 ^ 1023" by simp
  ultimately have lt: "m1 + m < 2 ^ 1023" by linarith
  from b1(1) assms(1) lt obtain s2 m2 where
    d: "float_sub (Float (v < 0) m1) (Float s m) = Float s2 m2"
    and m2: "0 \<le> m2" "m2 \<le> 2 * (m1 + m)"
    using float_sub_finite [of m1 m "v < 0" s] by simp blast
  show ?thesis
  proof (rule float_mul_steps_cases [OF m2(1), of s2])
    fix m3
    assume "float_mul (Float s2 m2) STEPS_PER_MILLISECOND = Float s2 m3"
    with x d show ?thesis by (simp add: time_shift_value_def bindE_simps)
  next
    assume inf: "float_mul (Float s2 m2) STEPS_PER_MILLISECOND = Infinity s2"
    let ?c = "3602879701896397 / 36028797018963968 :: real"
    have "m2 * ?c \<le> m2" using m2(1) by simp
    also have "\<dots> \<le> 6 * 2 ^ 1000" using m2(2) b1 v assms(2) by simp
    also have "\<dots> < 2 ^ 1023" by simp
    finally have "m2 * ?c < 2 ^ 1023" .
    moreover have "0 \<le> m2 * ?c" using m2(1) by simp
    ultimately have "\<exists>m3. round_to s2 (m2 * ?c) = Float s2 m3"
      using round_magnitude_finite [of "m2 * ?c"] by (auto simp: round_to_def)
    with inf show ?thesis by (simp add: steps_value)
  qed
qed

lemma rewrite_total:
  assumes "0 \<le> m" and "m \<le> 2 ^ 1000" and "\<forall>e\<in>set es. \<bar>evalue e\<bar> \<le> 2 ^ 1000"
  shows "\<exists>r. rewrite_time_shifts es (Float s m) = Inr r"
  unfolding rewrite_time_shifts_def
proof (rule collect_total, rule ballI)
  fix e
  assume "e \<in> set es"
  with assms(3) have "\<bar>evalue e\<bar> \<le> 2 ^ 1000" by simp
  from time_shift_value_total [OF assms(1,2) this, of s]
  show "\<exists>y. (if etype e = TIME_SHIFT
              then bindE (time_shift_value (evalue e) (Float s m)) (\<lambda>v. Inr (Event TIME_SHIFT v))
              else Inr e) = Inr y"
    by (auto simp: bindE_simps)
qed

lemma rewrite_zero_fixed:
  "rewrite_time_shifts es (Float z 0) = Inr es
     \<longleftrightarrow> (\<forall>e\<in>set es. etype e = TIME_SHIFT \<longrightarrow> evalue e = 0)"
proof (induction es)
  case Nil
  then show ?case by (simp add: rewrite_time_shifts_def)
next
  case (Cons e es)
  show ?case
  proof (cases "etype e = TIME_SHIFT")
    case True
    then have e: "e = Event TIME_SHIFT (evalue e)" by (cases e) simp
    have "rewrite_time_shifts (Event TIME_SHIFT (evalue e) # es) (Float z 0)
            = Inr (Event TIME_SHIFT (evalue e) # es)
          \<longleftrightarrow> time_shift_value (evalue e) (Float z 0) = Inr (evalue e)
              \<and> rewrite_time_shifts es (Float z 0) = Inr es"
      unfolding rewrite_shift_Cons by (auto simp: bindE_Inr)
    with e True Cons.IH show ?thesis by (simp add: time_shift_value_zero)
  next
    case False
    then show ?thesis using Cons.IH by (auto simp: rewrite_other_Cons bindE_Inr)
  qed
qed

lemma process_zero_fixed: "process es (Float z 0) = Inr es \<longleftrightarrow> renormalization_fixed es"
proof
  assume eq: "process es (Float z 0) = Inr es"
  then obtain r where r: "rewrite_time_shifts es (Float z 0) = Inr r"
    and s: "scan_from False r = es"
    by (auto simp: process_scan bindE_Inr)
  have len: "length r = length es" by (rule rewrite_nth(1) [OF r])
  have nd: "\<not> shift_before_anchor r"
  proof
    assume "shift_before_anchor r"
    from scan_from_shorter [OF this] s len show False by simp
  qed
  then have "scan_from False r = r" by (rule scan_from_fixed)
  with s have "r = es" by simp
  with r nd show "renormalization_fixed es"
    by (simp add: renormalization_fixed_def rewrite_zero_fixed)
next
  assume "renormalization_fixed es"
  then have a: "rewrite_time_shifts es (Float z 0) = Inr es" "\<not> shift_before_anchor es"
    by (simp_all add: renormalization_fixed_def rewrite_zero_fixed)
  then show "process es (Float z 0) = Inr es"
    by (simp add: process_scan scan_from_fixed bindE_simps)
qed

lemma trim_Inr:
  assumes "time sequence = Some t"
  shows "trim_time_shifts sequence = Inr s' \<longleftrightarrow>
     (\<exists>ev. process (events sequence) t = Inr ev
        \<and> (\<exists>pre. (case pre_events sequence of
                      None \<Rightarrow> pre = None
                    | Some l \<Rightarrow> \<exists>l'. process l t = Inr l' \<and> pre = Some l')
        \<and> (\<exists>oth. (case other sequence of
                      None \<Rightarrow> oth = None
                    | Some c \<Rightarrow> \<exists>l'. process (other_events c) t = Inr l'
                                 \<and> oth = Some (c\<lparr>other_events := l'\<rparr>))
        \<and> s' = sequence\<lparr>time := None, events := ev, pre_events := pre, other := oth\<rparr>)))"
  using assms
  by (auto simp: trim_time_shifts_def bindE_Inr split: option.splits)

lemma trim_attached:
  assumes "time sequence = Some t" and "trim_time_shifts sequence = Inr s'"
  shows "map Inr (attached_lists s') = map (\<lambda>l. process l t) (attached_lists sequence)"
  using assms(2) unfolding trim_Inr [OF assms(1)]
  by (auto simp: attached_lists_def split: option.splits)

lemma trim_succeeds:
  assumes "time sequence = Some t"
  shows "(\<exists>s'. trim_time_shifts sequence = Inr s')
           \<longleftrightarrow> (\<forall>l\<in>set (attached_lists sequence). \<exists>l'. process l t = Inr l')"
  by (cases "pre_events sequence"; cases "other sequence")
     (auto simp: trim_Inr [OF assms] attached_lists_def)

subsection \<open>Claims on time normalization\<close>

text \<open>
  C4 (as amended). The first pass keeps the length of the list and rewrites the value of
  every \<^verbatim>\<open>TIME_SHIFT\<close> event to \<^verbatim>\<open>int((event.value - start_time) * 0.1)\<close>, computed in
  binary64: the value is converted to a float, the difference and the product with the
  float \<^verbatim>\<open>0.1\<close> are each rounded to the nearest float, and the product is truncated toward
  zero, not rounded to the nearest integer; every other event is left as it is. The
  normalized list is a subsequence of the rewritten one. The pass returns whenever the
  start time is finite and it and the values are at most \<open>2^1000\<close> in magnitude, and
  \<^verbatim>\<open>_trim_time_shifts\<close> normalizes every event list attached to the window (main,
  pre-context, guide) with the window's start time, returning when every list can be
  normalized.
\<close>

theorem time_shift_values_truncated:
  "(\<forall>r. rewrite_time_shifts es t = Inr r \<longrightarrow>
       length r = length es
     \<and> (\<forall>i<length es.
          if etype (es ! i) = TIME_SHIFT
          then \<exists>x s m. float_of_int (evalue (es ! i)) = Inr x
                 \<and> float_mul (float_sub x t) STEPS_PER_MILLISECOND = Float s m
                 \<and> r ! i = Event TIME_SHIFT (if s then - \<lfloor>m\<rfloor> else \<lfloor>m\<rfloor>)
          else r ! i = es ! i))
   \<and> (\<forall>es'. process es t = Inr es' \<longrightarrow>
         (\<exists>r. rewrite_time_shifts es t = Inr r \<and> subseq es' r))
   \<and> (\<forall>s m. t = Float s m \<and> 0 \<le> m \<and> m \<le> 2 ^ 1000 \<and> (\<forall>e\<in>set es. \<bar>evalue e\<bar> \<le> 2 ^ 1000) \<longrightarrow>
         (\<exists>es'. process es t = Inr es'))
   \<and> (time sequence = Some t \<longrightarrow>
         ((\<exists>s'. trim_time_shifts sequence = Inr s')
            \<longleftrightarrow> (\<forall>l\<in>set (attached_lists sequence). \<exists>l'. process l t = Inr l'))
       \<and> (\<forall>s'. trim_time_shifts sequence = Inr s' \<longrightarrow>
             map Inr (attached_lists s') = map (\<lambda>l. process l t) (attached_lists sequence)))"
proof (intro conjI)
  show "\<forall>r. rewrite_time_shifts es t = Inr r \<longrightarrow>
       length r = length es
     \<and> (\<forall>i<length es.
          if etype (es ! i) = TIME_SHIFT
          then \<exists>x s m. float_of_int (evalue (es ! i)) = Inr x
                 \<and> float_mul (float_sub x t) STEPS_PER_MILLISECOND = Float s m
                 \<and> r ! i = Event TIME_SHIFT (if s then - \<lfloor>m\<rfloor> else \<lfloor>m\<rfloor>)
          else r ! i = es ! i)"
  proof (intro allI impI conjI)
    fix r
    assume r: "rewrite_time_shifts es t = Inr r"
    show "length r = length es" by (rule rewrite_nth(1) [OF r])
    fix i
    assume i: "i < length es"
    show "if etype (es ! i) = TIME_SHIFT
          then \<exists>x s m. float_of_int (evalue (es ! i)) = Inr x
                 \<and> float_mul (float_sub x t) STEPS_PER_MILLISECOND = Float s m
                 \<and> r ! i = Event TIME_SHIFT (if s then - \<lfloor>m\<rfloor> else \<lfloor>m\<rfloor>)
          else r ! i = es ! i"
    proof (cases "etype (es ! i) = TIME_SHIFT")
      case True
      from rewrite_nth(3) [OF r i True] obtain w where
        w: "time_shift_value (evalue (es ! i)) t = Inr w" and ri: "r ! i = Event TIME_SHIFT w"
        by blast
      from w obtain x where x: "float_of_int (evalue (es ! i)) = Inr x"
        and p: "int_of_float (float_mul (float_sub x t) STEPS_PER_MILLISECOND) = Inr w"
        by (auto simp: time_shift_value_def bindE_Inr)
      from p obtain s m where
        "float_mul (float_sub x t) STEPS_PER_MILLISECOND = Float s m"
        "w = (if s then - \<lfloor>m\<rfloor> else \<lfloor>m\<rfloor>)"
        by (cases "float_mul (float_sub x t) STEPS_PER_MILLISECOND") auto
      with x ri True show ?thesis by auto
    next
      case False
      with rewrite_nth(2) [OF r i] show ?thesis by simp
    qed
  qed
  show "\<forall>es'. process es t = Inr es' \<longrightarrow>
         (\<exists>r. rewrite_time_shifts es t = Inr r \<and> subseq es' r)"
    by (auto simp: process_scan bindE_Inr scan_from_subseq)
  show "\<forall>s m. t = Float s m \<and> 0 \<le> m \<and> m \<le> 2 ^ 1000 \<and> (\<forall>e\<in>set es. \<bar>evalue e\<bar> \<le> 2 ^ 1000) \<longrightarrow>
         (\<exists>es'. process es t = Inr es')"
  proof (intro allI impI)
    fix s m
    assume "t = Float s m \<and> 0 \<le> m \<and> m \<le> 2 ^ 1000 \<and> (\<forall>e\<in>set es. \<bar>evalue e\<bar> \<le> 2 ^ 1000)"
    with rewrite_total [of m es s] show "\<exists>es'. process es t = Inr es'"
      by (auto simp: process_scan bindE_simps)
  qed
  show "time sequence = Some t \<longrightarrow>
         ((\<exists>s'. trim_time_shifts sequence = Inr s')
            \<longleftrightarrow> (\<forall>l\<in>set (attached_lists sequence). \<exists>l'. process l t = Inr l'))
       \<and> (\<forall>s'. trim_time_shifts sequence = Inr s' \<longrightarrow>
             map Inr (attached_lists s') = map (\<lambda>l. process l t) (attached_lists sequence))"
    using trim_succeeds [of sequence t] trim_attached [of sequence t] by blast
qed

lemma float64_run:
  "float_of_int 5 = Inr (Float False 5)"
  "float_sub (Float False 5) frame_time_225 = Float True (7740561859543039 / 35184372088832)"
  "float_mul (Float True (7740561859543039 / 35184372088832)) STEPS_PER_MILLISECOND
     = Float True 22"
  "time_shift_value 5 frame_time_225 = Inr (- 22)"
  "time_shift_value 19 (Float False 0) = Inr 1"
  by (simp_all add: time_shift_value_def steps_value frame_time_225_def float64_eval bindE_simps
      Let_def)

theorem time_shift_values_truncated_witness:
  "rewrite_time_shifts [Event TIME_SHIFT 5, Event (OTHER_TYPE ''CIRCLE'') 0] frame_time_225
     = Inr [Event TIME_SHIFT (- 22), Event (OTHER_TYPE ''CIRCLE'') 0]
   \<and> (\<exists>x s m. float_of_int 5 = Inr x
         \<and> float_mul (float_sub x frame_time_225) STEPS_PER_MILLISECOND = Float s m
         \<and> (if s then - \<lfloor>m\<rfloor> else \<lfloor>m\<rfloor>) = - 22)
   \<and> (\<exists>es'. process [Event TIME_SHIFT 5, Event (OTHER_TYPE ''CIRCLE'') 0] frame_time_225
              = Inr es')
   \<and> (\<exists>s'. trim_time_shifts (demo_sequence [Event TIME_SHIFT 19, Event (OTHER_TYPE ''CIRCLE'') 0])
              = Inr s'
        \<and> attached_lists s' =
            [[Event TIME_SHIFT 1, Event (OTHER_TYPE ''CIRCLE'') 0],
             [Event TIME_SHIFT 1, Event (OTHER_TYPE ''CIRCLE'') 0]])"
proof -
  let ?es = "[Event TIME_SHIFT 5, Event (OTHER_TYPE ''CIRCLE'') 0]"
  let ?r = "[Event TIME_SHIFT (- 22), Event (OTHER_TYPE ''CIRCLE'') 0]"
  let ?ds = "[Event TIME_SHIFT 19, Event (OTHER_TYPE ''CIRCLE'') 0]"
  let ?dr = "[Event TIME_SHIFT 1, Event (OTHER_TYPE ''CIRCLE'') 0]"
  note a = time_shift_values_truncated [of ?es frame_time_225 "demo_sequence ?ds"]
  note b = time_shift_values_truncated [of ?ds "Float False 0" "demo_sequence ?ds"]
  have r: "rewrite_time_shifts ?es frame_time_225 = Inr ?r"
    by (simp add: rewrite_time_shifts_def float64_run bindE_simps)
  from a r have all: "\<forall>i<length ?es.
        if etype (?es ! i) = TIME_SHIFT
        then \<exists>x s m. float_of_int (evalue (?es ! i)) = Inr x
               \<and> float_mul (float_sub x frame_time_225) STEPS_PER_MILLISECOND = Float s m
               \<and> ?r ! i = Event TIME_SHIFT (if s then - \<lfloor>m\<rfloor> else \<lfloor>m\<rfloor>)
        else ?r ! i = ?es ! i"
    by blast
  from all [rule_format, of 0]
  have c1: "\<exists>x s m. float_of_int 5 = Inr x
         \<and> float_mul (float_sub x frame_time_225) STEPS_PER_MILLISECOND = Float s m
         \<and> (if s then - \<lfloor>m\<rfloor> else \<lfloor>m\<rfloor>) = - 22"
    by auto
  have "frame_time_225 = Float False (7916483719987199 / 35184372088832)
          \<and> (0::real) \<le> 7916483719987199 / 35184372088832
          \<and> (7916483719987199 / 35184372088832 :: real) \<le> 2 ^ 1000
          \<and> (\<forall>e\<in>set ?es. \<bar>evalue e\<bar> \<le> 2 ^ 1000)"
    by (simp add: frame_time_225_def)
  with a have c2: "\<exists>es'. process ?es frame_time_225 = Inr es'" by blast
  have t: "time (demo_sequence ?ds) = Some (Float False 0)" by (simp add: demo_sequence_def)
  have p: "process ?ds (Float False 0) = Inr ?dr"
    by (simp add: process_def rewrite_time_shifts_def float64_run bindE_simps)
  have l: "attached_lists (demo_sequence ?ds) = [?ds, ?ds]"
    by (simp add: attached_lists_def demo_sequence_def)
  from b t p l obtain s' where s': "trim_time_shifts (demo_sequence ?ds) = Inr s'" by auto
  with b t have "map Inr (attached_lists s') = map (\<lambda>l. process l (Float False 0)) [?ds, ?ds]"
    unfolding l by blast
  then have "map Inr (attached_lists s') = (map Inr [?dr, ?dr] :: (py_error + event list) list)"
    by (simp add: p)
  then have "attached_lists s' = [?dr, ?dr]"
    by (simp add: map_eq_Cons_conv)
  with s' r c1 c2 show ?thesis by blast
qed

text \<open>
  C4 as stated fails: a shift 19 ms after the window start becomes 1. The product is the
  float \<^verbatim>\<open>1.9000000000000001\<close>, and rounding it, or the exact \<open>1.9\<close>, to the nearest
  integer gives 2.
\<close>

theorem time_shift_rounding_counterexample:
  "process [Event TIME_SHIFT 19] (Float False 0) = Inr [Event TIME_SHIFT 1]
   \<and> float_of_int 19 = Inr (Float False 19)
   \<and> float_mul (float_sub (Float False 19) (Float False 0)) STEPS_PER_MILLISECOND
       = Float False (8556839292003943 / 4503599627370496)
   \<and> round (8556839292003943 / 4503599627370496 :: real) = 2
   \<and> round ((19 - 0) * (1 / 10) :: real) = 2"
  by (simp add: process_def rewrite_time_shifts_def time_shift_value_def steps_value float64_eval
      bindE_simps Let_def round_def)

text \<open>
  C6 (as amended). The reverse scan deletes the \<^verbatim>\<open>TIME_SHIFT\<close> event that precedes a curve
  anchor in forward order, with no other \<^verbatim>\<open>TIME_SHIFT\<close> between the two; the events between
  them, the anchor and everything after it are handled on their own. A \<^verbatim>\<open>TIME_SHIFT\<close> with
  no anchor among the events up to the next \<^verbatim>\<open>TIME_SHIFT\<close> (or the end of the list) is kept,
  with its normalized value. The value of the deleted shift is still computed, so an
  exception of the first pass is raised in the order of the list.
\<close>

lemma rewrite_split:
  assumes "\<forall>e\<in>set mid. etype e \<noteq> TIME_SHIFT"
  shows "rewrite_time_shifts (xs @ Event TIME_SHIFT v # mid @ rest) t =
     bindE (rewrite_time_shifts xs t) (\<lambda>xs'.
     bindE (time_shift_value v t) (\<lambda>w.
     bindE (rewrite_time_shifts rest t) (\<lambda>rest'.
     Inr (xs' @ Event TIME_SHIFT w # mid @ rest'))))"
  using rewrite_no_shift [OF assms, of t]
  by (cases "rewrite_time_shifts xs t"; cases "time_shift_value v t";
      cases "rewrite_time_shifts rest t")
     (simp_all add: rewrite_append rewrite_shift_Cons bindE_simps)

theorem preceding_shift_deleted:
  "(is_anchor a \<and> (\<forall>e\<in>set mid. etype e \<noteq> TIME_SHIFT) \<longrightarrow>
      process (xs @ Event TIME_SHIFT v # mid @ a # ys) t =
        bindE (process xs t) (\<lambda>xs'.
        bindE (time_shift_value v t) (\<lambda>w.
        bindE (process ys t) (\<lambda>ys'.
        Inr (xs' @ mid @ a # ys')))))
   \<and> ((\<forall>e\<in>set mid. etype e \<noteq> TIME_SHIFT \<and> \<not> is_anchor e)
        \<and> (rest = [] \<or> etype (hd rest) = TIME_SHIFT) \<longrightarrow>
      process (xs @ Event TIME_SHIFT v # mid @ rest) t =
        bindE (process xs t) (\<lambda>xs'.
        bindE (time_shift_value v t) (\<lambda>w.
        bindE (process rest t) (\<lambda>rest'.
        Inr (xs' @ Event TIME_SHIFT w # mid @ rest')))))"
proof (intro conjI impI)
  assume h: "is_anchor a \<and> (\<forall>e\<in>set mid. etype e \<noteq> TIME_SHIFT)"
  then have na: "etype a \<noteq> TIME_SHIFT" by (auto simp: is_anchor_def)
  have sc: "scan_from False (xs' @ Event TIME_SHIFT w # mid @ a # ys')
              = scan_from False xs' @ mid @ a # scan_from False ys'" for xs' w ys'
  proof -
    have "scan_from False (xs' @ Event TIME_SHIFT w # mid @ a # ys')
            = scan_from False xs' @ scan_from False (Event TIME_SHIFT w # mid @ a # ys')"
      by (rule scan_from_append_shift) simp
    also have "scan_from False (Event TIME_SHIFT w # mid @ a # ys')
                 = mid @ a # scan_from False ys'"
      using h anchor_pending_mid_anchor [of mid a False] scan_from_mid_anchor [of mid a False]
      by (simp add: scan_from_Cons)
    finally show ?thesis .
  qed
  show "process (xs @ Event TIME_SHIFT v # mid @ a # ys) t =
        bindE (process xs t) (\<lambda>xs'.
        bindE (time_shift_value v t) (\<lambda>w.
        bindE (process ys t) (\<lambda>ys'.
        Inr (xs' @ mid @ a # ys'))))"
    using h
    by (cases "rewrite_time_shifts xs t"; cases "time_shift_value v t";
        cases "rewrite_time_shifts ys t")
       (simp_all add: process_scan rewrite_split rewrite_other_Cons [OF na] bindE_simps sc)
next
  assume h: "(\<forall>e\<in>set mid. etype e \<noteq> TIME_SHIFT \<and> \<not> is_anchor e)
               \<and> (rest = [] \<or> etype (hd rest) = TIME_SHIFT)"
  have np: "\<not> anchor_pending False r" if r: "rewrite_time_shifts rest t = Inr r" for r
  proof -
    have "anchor_pending False r = anchor_pending False rest"
      by (rule anchor_pending_types) (rule rewrite_types [OF r])
    also have "\<not> anchor_pending False rest" using h by (cases rest) auto
    finally show ?thesis .
  qed
  have sc: "scan_from False (xs' @ Event TIME_SHIFT w # mid @ r)
              = scan_from False xs' @ Event TIME_SHIFT w # mid @ scan_from False r"
    if r: "rewrite_time_shifts rest t = Inr r" for xs' w r
  proof -
    have "scan_from False (xs' @ Event TIME_SHIFT w # mid @ r)
            = scan_from False xs' @ scan_from False (Event TIME_SHIFT w # mid @ r)"
      by (rule scan_from_append_shift) simp
    also have "scan_from False (Event TIME_SHIFT w # mid @ r)
                 = Event TIME_SHIFT w # mid @ scan_from False r"
      using h np [OF r] anchor_pending_plain [of mid False r] scan_from_plain [of mid False r]
      by (simp add: scan_from_Cons)
    finally show ?thesis .
  qed
  show "process (xs @ Event TIME_SHIFT v # mid @ rest) t =
        bindE (process xs t) (\<lambda>xs'.
        bindE (time_shift_value v t) (\<lambda>w.
        bindE (process rest t) (\<lambda>rest'.
        Inr (xs' @ Event TIME_SHIFT w # mid @ rest'))))"
    using h
    by (cases "rewrite_time_shifts xs t"; cases "time_shift_value v t";
        cases "rewrite_time_shifts rest t")
       (simp_all add: process_scan rewrite_split bindE_simps sc)
qed

lemma process_run:
  "process [Event TIME_SHIFT 30] (Float False 0) = Inr [Event TIME_SHIFT 3]"
  "process [Event TIME_SHIFT 70] (Float False 0) = Inr [Event TIME_SHIFT 7]"
  "process [] (Float False 0) = Inr []"
  "time_shift_value 50 (Float False 0) = Inr 5"
  by (simp_all add: process_def rewrite_time_shifts_def time_shift_value_def steps_value
      float64_eval bindE_simps Let_def)

theorem preceding_shift_deleted_witness:
  "process ([Event TIME_SHIFT 30] @ Event TIME_SHIFT 50 # [Event (OTHER_TYPE ''SLIDER_HEAD'') 0]
             @ Event BEZIER_ANCHOR 0 # [Event TIME_SHIFT 70]) (Float False 0)
     = Inr ([Event TIME_SHIFT 3] @ [Event (OTHER_TYPE ''SLIDER_HEAD'') 0]
         @ Event BEZIER_ANCHOR 0 # [Event TIME_SHIFT 7])
   \<and> process ([] @ Event TIME_SHIFT 50 # [Event (OTHER_TYPE ''CIRCLE'') 0] @ [Event TIME_SHIFT 70])
        (Float False 0)
     = Inr ([] @ Event TIME_SHIFT 5 # [Event (OTHER_TYPE ''CIRCLE'') 0] @ [Event TIME_SHIFT 7])"
proof -
  have a: "is_anchor (Event BEZIER_ANCHOR 0)
            \<and> (\<forall>e\<in>set [Event (OTHER_TYPE ''SLIDER_HEAD'') 0]. etype e \<noteq> TIME_SHIFT)"
    by (simp add: is_anchor_def)
  have b: "(\<forall>e\<in>set [Event (OTHER_TYPE ''CIRCLE'') 0]. etype e \<noteq> TIME_SHIFT \<and> \<not> is_anchor e)
            \<and> ([Event TIME_SHIFT 70] = [] \<or> etype (hd [Event TIME_SHIFT 70]) = TIME_SHIFT)"
    by (simp add: is_anchor_def)
  from preceding_shift_deleted
         [of "Event BEZIER_ANCHOR 0" "[Event (OTHER_TYPE ''SLIDER_HEAD'') 0]" "[Event TIME_SHIFT 30]"
             50 "[Event TIME_SHIFT 70]" "Float False 0"]
       preceding_shift_deleted
         [of _ "[Event (OTHER_TYPE ''CIRCLE'') 0]" "[]" 50 _ "Float False 0" "[Event TIME_SHIFT 70]"]
       a b
  show ?thesis by (simp add: process_run bindE_simps)
qed

text \<open>
  C6 as stated fails: the \<^verbatim>\<open>TIME_SHIFT\<close> that follows an anchor is kept, and the one
  before the anchor is deleted.
\<close>

theorem following_shift_kept_counterexample:
  "process [Event BEZIER_ANCHOR 0, Event TIME_SHIFT 50] (Float False 0)
     = Inr [Event BEZIER_ANCHOR 0, Event TIME_SHIFT 5]
   \<and> process [Event TIME_SHIFT 50, Event BEZIER_ANCHOR 0] (Float False 0)
     = Inr [Event BEZIER_ANCHOR 0]"
  by (simp add: process_def rewrite_time_shifts_def process_run bindE_simps del_at_def)

text \<open>
  C7 (as amended). Normalizing a window again with start time 0 (either zero of binary64)
  leaves it unchanged if and only if, in each event list attached to it, every
  \<^verbatim>\<open>TIME_SHIFT\<close> value is 0 and no \<^verbatim>\<open>TIME_SHIFT\<close> is followed by a curve anchor with no
  \<^verbatim>\<open>TIME_SHIFT\<close> in between.
\<close>

theorem renormalizing_is_noop_iff:
  "trim_time_shifts (sequence\<lparr>time := Some (Float z 0)\<rparr>) = Inr (sequence\<lparr>time := None\<rparr>)
     \<longleftrightarrow> list_all renormalization_fixed (attached_lists sequence)"
proof -
  have o: "c\<lparr>other_events := l\<rparr> = c \<longleftrightarrow> l = other_events c"
    "c = c\<lparr>other_events := l\<rparr> \<longleftrightarrow> l = other_events c" for c :: other_context and l
    by (cases c; auto)+
  have t: "time (sequence\<lparr>time := Some (Float z 0)\<rparr>) = Some (Float z 0)" by simp
  show ?thesis
    unfolding trim_Inr [OF t]
    by (cases sequence; cases "pre_events sequence"; cases "other sequence")
       (auto simp: attached_lists_def o process_zero_fixed)
qed

theorem renormalizing_is_noop_iff_witness:
  "trim_time_shifts
      (demo_sequence [Event BEZIER_ANCHOR 3, Event TIME_SHIFT 0, Event (OTHER_TYPE ''CIRCLE'') 0]
         \<lparr>time := Some (Float False 0)\<rparr>)
     = Inr (demo_sequence [Event BEZIER_ANCHOR 3, Event TIME_SHIFT 0, Event (OTHER_TYPE ''CIRCLE'') 0]
         \<lparr>time := None\<rparr>)"
proof -
  let ?es = "[Event BEZIER_ANCHOR 3, Event TIME_SHIFT 0, Event (OTHER_TYPE ''CIRCLE'') 0]"
  have "list_all renormalization_fixed (attached_lists (demo_sequence ?es))"
    by (simp add: attached_lists_def demo_sequence_def renormalization_fixed_def is_anchor_def)
  with renormalizing_is_noop_iff [where sequence = "demo_sequence ?es" and z = False]
  show ?thesis by simp
qed

text \<open>
  C7 as stated fails: on a normalized window the second run divides the remaining shift
  value by ten again and deletes the shift that now precedes the anchor.
\<close>

lemma renormalizing_run:
  "time_shift_value 1000 (Float False 0) = Inr 100"
  "time_shift_value 2000 (Float False 0) = Inr 200"
  "time_shift_value 100 (Float False 0) = Inr 10"
  by (simp_all add: time_shift_value_def steps_value float64_eval bindE_simps Let_def)

theorem renormalizing_changes_window_counterexample:
  "trim_time_shifts (demo_sequence [Event TIME_SHIFT 1000, Event TIME_SHIFT 2000,
        Event (OTHER_TYPE ''SLIDER_HEAD'') 0, Event BEZIER_ANCHOR 0])
     = Inr (demo_sequence [Event TIME_SHIFT 100, Event (OTHER_TYPE ''SLIDER_HEAD'') 0,
              Event BEZIER_ANCHOR 0] \<lparr>time := None\<rparr>)
   \<and> trim_time_shifts (demo_sequence [Event TIME_SHIFT 100, Event (OTHER_TYPE ''SLIDER_HEAD'') 0,
              Event BEZIER_ANCHOR 0] \<lparr>time := Some (Float False 0)\<rparr>)
     = Inr (demo_sequence [Event (OTHER_TYPE ''SLIDER_HEAD'') 0, Event BEZIER_ANCHOR 0]
              \<lparr>time := None\<rparr>)
   \<and> demo_sequence [Event (OTHER_TYPE ''SLIDER_HEAD'') 0, Event BEZIER_ANCHOR 0] \<lparr>time := None\<rparr>
     \<noteq> demo_sequence [Event TIME_SHIFT 100, Event (OTHER_TYPE ''SLIDER_HEAD'') 0,
              Event BEZIER_ANCHOR 0] \<lparr>time := None\<rparr>"
  by (simp add: trim_time_shifts_def demo_sequence_def process_def rewrite_time_shifts_def
      renormalizing_run bindE_simps del_at_def)

section \<open>Python sequences\<close>

text \<open>
  Lists, numpy arrays and torch tensors of one dimension are lists; indices and slice
  bounds are Python integers, so they may be negative (counted from the end). Reading or
  writing one item out of range raises \<^verbatim>\<open>IndexError\<close>; slice bounds are clamped.
\<close>

definition slice_bound :: "nat \<Rightarrow> int \<Rightarrow> nat" where
  \<comment> \<open>A slice bound on a sequence of length \<open>n\<close>: a negative bound counts from the end, and
     the result is clamped to \<open>[0, n]\<close>.\<close>
  "slice_bound n i = (if i < 0 then nat (max 0 (i + int n)) else min n (nat i))"

definition py_slice :: "'a list \<Rightarrow> int \<Rightarrow> int \<Rightarrow> 'a list" where
  \<comment> \<open>\<^verbatim>\<open>xs[a:b]\<close>\<close>
  "py_slice xs a b =
     (let lo = slice_bound (length xs) a; hi = slice_bound (length xs) b
      in take (hi - lo) (drop lo xs))"

definition py_slice_from :: "'a list \<Rightarrow> int \<Rightarrow> 'a list" where
  \<comment> \<open>\<^verbatim>\<open>xs[a:]\<close>\<close>
  "py_slice_from xs a = drop (slice_bound (length xs) a) xs"

definition py_get :: "'a list \<Rightarrow> int \<Rightarrow> py_error + 'a" where
  \<comment> \<open>\<^verbatim>\<open>xs[i]\<close>\<close>
  "py_get xs i =
     (let j = (if i < 0 then i + int (length xs) else i)
      in if 0 \<le> j \<and> j < int (length xs) then Inr (xs ! nat j) else Inl IndexError)"

definition set_item :: "'a list \<Rightarrow> int \<Rightarrow> 'a \<Rightarrow> py_error + 'a list" where
  \<comment> \<open>\<^verbatim>\<open>xs[i] = v\<close> on a tensor of one dimension\<close>
  "set_item xs i v =
     (let j = (if i < 0 then i + int (length xs) else i)
      in if 0 \<le> j \<and> j < int (length xs) then Inr (xs[nat j := v]) else Inl IndexError)"

definition set_slice :: "'a list \<Rightarrow> int \<Rightarrow> int \<Rightarrow> 'a list \<Rightarrow> py_error + 'a list" where
  \<comment> \<open>\<^verbatim>\<open>xs[a:b] = src\<close> on a tensor of one dimension: the source must have the length of the
     slice, or length one (it is then broadcast); otherwise torch raises \<^verbatim>\<open>RuntimeError\<close>.\<close>
  "set_slice xs a b src =
     (let lo = slice_bound (length xs) a; hi = slice_bound (length xs) b; len = hi - lo
      in if length src = len then Inr (take lo xs @ src @ drop (lo + len) xs)
         else if length src = 1 then Inr (take lo xs @ replicate len (hd src) @ drop (lo + len) xs)
         else Inl RuntimeError)"

definition randint :: "int \<Rightarrow> int \<Rightarrow> nat \<Rightarrow> py_error + int" where
  \<comment> \<open>\<^verbatim>\<open>random.randint(a, b)\<close>: some integer of \<open>[a, b]\<close>, chosen by the entropy \<open>r\<close>;
     \<^verbatim>\<open>ValueError\<close> on an empty range.\<close>
  "randint a b r = (if b < a then Inl ValueError else Inr (a + int r mod (b - a + 1)))"

definition py_range :: "int \<Rightarrow> int \<Rightarrow> int \<Rightarrow> py_error + int list" where
  \<comment> \<open>\<^verbatim>\<open>range(a, b, step)\<close>\<close>
  "py_range a b step =
     (if step = 0 then Inl ValueError
      else Inr (map (\<lambda>k. a + int k * step)
                  [0..<nat (if 0 < step then (b - a + step - 1) div step
                            else (a - b - step - 1) div (- step))]))"

section \<open>Configuration, tokenizer and iterator state\<close>

text \<open>
  \<open>args\<close> holds the options of the configuration that the functions below read. The
  tokenizer belongs to another module: its reserved ids, its encoders and the id range
  of each event type are parameters of the embedding.
\<close>

record args =
  src_seq_len :: int
  tgt_seq_len :: int
  sample_rate :: int
  hop_length :: int
  special_token_len :: int
  class_dropout_prob :: real
  diff_dropout_prob :: real
  add_pre_tokens :: bool
  add_pre_tokens_at_step :: int
  max_pre_token_len :: int
  add_empty_sequences :: bool
  add_empty_sequences_at_step :: int
  center_pad_decoder :: bool
  diff_token_index :: int
  style_token_index :: int
  timing_random_offset :: int

record tokenizer =
  sos_id :: int
  eos_id :: int
  pad_id :: int
  style_unk :: int
  diff_unk :: int
  num_classes :: int
  encode :: "event \<Rightarrow> int"
  encode_style_idx :: "int \<Rightarrow> int"
  encode_diff :: "real \<Rightarrow> int"
  event_start :: "event_type \<Rightarrow> int"
  event_end :: "event_type \<Rightarrow> int"

definition LABEL_IGNORE_ID :: int where
  "LABEL_IGNORE_ID = - 100"

definition MILISECONDS_PER_SECOND :: int where
  "MILISECONDS_PER_SECOND = 1000"

text \<open>
  The attributes that \<^verbatim>\<open>BeatmapDatasetIterable.__init__\<close> computes. Those that share their
  name with an option of \<open>args\<close> carry the prefix \<open>self_\<close>: \<^verbatim>\<open>self.add_empty_sequences\<close> is
  \<open>self_add_empty_sequences\<close>, \<^verbatim>\<open>self.args.add_empty_sequences\<close> is \<open>add_empty_sequences\<close>.
\<close>

record iterable =
  frame_seq_len :: int
  min_pre_token_len :: int
  pre_token_len :: int
  self_class_dropout_prob :: real
  self_diff_dropout_prob :: real
  self_add_pre_tokens :: bool
  self_add_empty_sequences :: bool

definition init_iterable :: "args \<Rightarrow> bool \<Rightarrow> iterable" where
  "init_iterable a test =
     \<lparr>frame_seq_len = src_seq_len a - 1,
      min_pre_token_len = 4,
      pre_token_len = tgt_seq_len a div 2,
      self_class_dropout_prob = (if test then 1 else class_dropout_prob a),
      self_diff_dropout_prob = (if test then 0 else diff_dropout_prob a),
      self_add_pre_tokens = add_pre_tokens a,
      self_add_empty_sequences = add_empty_sequences a\<rparr>"

text \<open>
  \<^verbatim>\<open>self.shared\<close> is \<open>None\<close> or a namespace whose \<^verbatim>\<open>current_train_step\<close> is set by the
  trainer; \<open>current_train_step k\<close> is the value read at the \<open>k\<close>-th window of the beatmap.
\<close>

definition maybe_change_dataset ::
  "args \<Rightarrow> (nat \<Rightarrow> int) option \<Rightarrow> nat \<Rightarrow> iterable \<Rightarrow> iterable" where
  "maybe_change_dataset a shared k self =
     (case shared of
        None \<Rightarrow> self
      | Some current_train_step \<Rightarrow>
          let step = current_train_step k;
              self1 = (if 0 \<le> add_empty_sequences_at_step a \<and> add_empty_sequences_at_step a \<le> step
                          \<and> \<not> self_add_empty_sequences self
                       then self\<lparr>self_add_empty_sequences := True\<rparr> else self)
          in if 0 \<le> add_pre_tokens_at_step a \<and> add_pre_tokens_at_step a \<le> step
                  \<and> \<not> self_add_pre_tokens self1
             then self1\<lparr>self_add_pre_tokens := True\<rparr> else self1)"

section \<open>Frames (\<^verbatim>\<open>_get_frames\<close>)\<close>

text \<open>
  \<^verbatim>\<open>len(samples) % hop_length\<close> raises on a hop length 0, and \<^verbatim>\<open>np.pad\<close> on a negative
  pad width. \<^verbatim>\<open>frames_per_milisecond\<close> is a Python float, the quotient of two ints divided
  by the int 1000. The frame times are \<^verbatim>\<open>np.arange(len(frames)) / frames_per_milisecond\<close>,
  a numpy division: at sample rate 0 the first time is \<^verbatim>\<open>nan\<close> and the others are
  \<^verbatim>\<open>inf\<close>.
\<close>

definition reshape_rows :: "nat \<Rightarrow> real list \<Rightarrow> real list list" where
  \<comment> \<open>\<^verbatim>\<open>np.reshape(samples, (-1, k))\<close> for \<open>k > 0\<close> dividing the length: row \<open>i\<close> is
     \<^verbatim>\<open>samples[i*k:(i+1)*k]\<close>.\<close>
  "reshape_rows k xs = map (\<lambda>i. take k (drop (i * k) xs)) [0..<length xs div k]"

definition get_frames :: "args \<Rightarrow> real list \<Rightarrow> py_error + ndarray2 \<times> float64 list" where
  "get_frames a samples =
     (if hop_length a = 0 then Inl ZeroDivisionError
      else
        let pad = hop_length a - int (length samples) mod hop_length a in
        if pad < 0 then Inl ValueError
        else
          let samples = samples @ replicate (nat pad) 0;
              frames = Array2 (nat (hop_length a)) (reshape_rows (nat (hop_length a)) samples)
          in
          bindE (int_truediv (sample_rate a) (hop_length a)) (\<lambda>q.
          bindE (float_truediv_int q MILISECONDS_PER_SECOND) (\<lambda>frames_per_milisecond.
          Inr (frames,
               map (\<lambda>i. float_div (float_of_index i) frames_per_milisecond)
                 [0..<length (rows frames)]))))"

section \<open>Windows (\<^verbatim>\<open>_create_sequences\<close>)\<close>

text \<open>
  \<^verbatim>\<open>get_event_indices\<close>: \<^verbatim>\<open>event_time\<close> is \<^verbatim>\<open>-np.inf\<close> (\<open>None\<close>) or the int value of a
  \<^verbatim>\<open>TIME_SHIFT\<close> event, and it is compared with a frame time, a \<^verbatim>\<open>float64\<close>. The inner
  \<^verbatim>\<open>while\<close> loop receives the events from \<^verbatim>\<open>event_index\<close> on; its condition compares the
  times first and then looks whether an event is left. The outer loop runs over the frame
  times and keeps the cursor.
\<close>

definition time_less :: "int option \<Rightarrow> float64 \<Rightarrow> py_error + bool" where
  \<comment> \<open>\<^verbatim>\<open>event_time < current_time\<close>\<close>
  "time_less event_time current_time =
     (case event_time of
        None \<Rightarrow> Inr (float_less (Infinity True) current_time)
      | Some v \<Rightarrow> bindE (float_of_int v) (\<lambda>x. Inr (float_less x current_time)))"

fun while_advance ::
  "float64 \<Rightarrow> event list \<Rightarrow> int option \<Rightarrow> nat \<Rightarrow> py_error + int option \<times> nat" where
  "while_advance current_time [] event_time event_index =
     bindE (time_less event_time current_time) (\<lambda>less. Inr (event_time, event_index))"
| "while_advance current_time (e # rest) event_time event_index =
     bindE (time_less event_time current_time) (\<lambda>less.
     if less
     then while_advance current_time rest
            (if etype e = TIME_SHIFT then Some (evalue e) else event_time) (event_index + 1)
     else Inr (event_time, event_index))"

fun start_indices_loop ::
  "float64 list \<Rightarrow> event list \<Rightarrow> int option \<Rightarrow> nat \<Rightarrow> py_error + int list" where
  "start_indices_loop [] events2 event_time event_index = Inr []"
| "start_indices_loop (current_time # later_times) events2 event_time event_index =
     bindE (while_advance current_time (drop event_index events2) event_time event_index)
       (\<lambda>(event_time', event_index').
     bindE (start_indices_loop later_times events2 event_time' event_index') (\<lambda>start_indices.
     Inr ((int event_index' - 1) # start_indices)))"

definition get_event_indices ::
  "float64 list \<Rightarrow> event list \<Rightarrow> py_error + int list \<times> int list" where
  "get_event_indices frame_times events2 =
     bindE (start_indices_loop frame_times events2 None 0) (\<lambda>start_indices.
     let end_indices = drop 1 start_indices @ [int (length events2)]
     in Inr (start_indices, end_indices))"

text \<open>
  The guide beatmap (\<^verbatim>\<open>other_events\<close>, \<^verbatim>\<open>other_beatmap_idx\<close>, \<^verbatim>\<open>other_difficulty\<close>), given or
  not. \<open>create_sequence\<close> is the body of the loop over the window starts, \<open>collect\<close> the
  loop, which stops at the first exception. The random offset is drawn from the entropy
  \<open>r\<close>.
\<close>

record guide =
  guide_events :: "event list"
  guide_beatmap_idx :: int
  guide_difficulty :: real

definition create_sequence ::
  "args \<Rightarrow> iterable \<Rightarrow> ndarray2 \<Rightarrow> float64 list \<Rightarrow> event list \<Rightarrow> int \<Rightarrow> real \<Rightarrow> guide option \<Rightarrow>
     int list \<times> int list \<Rightarrow> (int list \<times> int list) option \<Rightarrow> int \<Rightarrow> py_error + sequence" where
  "create_sequence a self frames1 frame_times events1 beatmap_idx1 difficulty1 other1
       event_indices other_event_indices frame_start_idx =
     (let n_frames = int (length (rows frames1));
          frame_end_idx = min (frame_start_idx + frame_seq_len self) n_frames;
          frame_pre_idx = max (frame_start_idx - frame_seq_len self) 0
      in
      bindE (py_get (fst event_indices) frame_start_idx) (\<lambda>target_start_idx.
      bindE (py_get (snd event_indices) (frame_end_idx - 1)) (\<lambda>target_end_idx.
      bindE (py_get (fst event_indices) frame_pre_idx) (\<lambda>target_pre_idx.
      bindE (py_get frame_times frame_start_idx) (\<lambda>t.
      bindE (case (other1, other_event_indices) of
               (Some g, Some oi) \<Rightarrow>
                 bindE (py_get (fst oi) frame_start_idx) (\<lambda>other_target_start_idx.
                 bindE (py_get (snd oi) (frame_end_idx - 1)) (\<lambda>other_target_end_idx.
                 Inr (Some \<lparr>other_events =
                              py_slice (guide_events g) other_target_start_idx other_target_end_idx,
                            other_beatmap_idx = guide_beatmap_idx g,
                            other_difficulty = guide_difficulty g\<rparr>)))
             | _ \<Rightarrow> Inr None) (\<lambda>other_part.
      Inr \<lparr>time = Some t,
           frames = Array2 (ncols frames1) (py_slice (rows frames1) frame_start_idx frame_end_idx),
           events = py_slice events1 target_start_idx target_end_idx,
           beatmap_idx = beatmap_idx1,
           difficulty = difficulty1,
           pre_events =
             (if add_pre_tokens a \<or> add_pre_tokens_at_step a \<ge> 0
              then Some (py_slice events1 target_pre_idx target_start_idx) else None),
           other = other_part\<rparr>))))))"

definition create_sequences ::
  "args \<Rightarrow> iterable \<Rightarrow> nat \<Rightarrow> ndarray2 \<Rightarrow> float64 list \<Rightarrow> event list \<Rightarrow> int \<Rightarrow> real \<Rightarrow>
     guide option \<Rightarrow> py_error + sequence list" where
  "create_sequences a self r frames1 frame_times events1 beatmap_idx1 difficulty1 other1 =
     bindE (get_event_indices frame_times events1) (\<lambda>event_indices.
     bindE (case other1 of
              None \<Rightarrow> Inr None
            | Some g \<Rightarrow> bindE (get_event_indices frame_times (guide_events g))
                          (\<lambda>indices. Inr (Some indices))) (\<lambda>other_event_indices.
     let n_frames = int (length (rows frames1)) in
     bindE (randint 0 (frame_seq_len self) r) (\<lambda>offset.
     bindE (py_range offset n_frames (frame_seq_len self)) (\<lambda>starts.
     collect (create_sequence a self frames1 frame_times events1 beatmap_idx1 difficulty1 other1
                event_indices other_event_indices) starts))))"

section \<open>Tokens (\<^verbatim>\<open>_tokenize_sequence\<close>, \<^verbatim>\<open>_pad_frame_sequence\<close>,
  \<^verbatim>\<open>_pad_and_split_token_sequence\<close>)\<close>

text \<open>
  The random numbers of one window: the results of \<^verbatim>\<open>random.random()\<close> in the order of
  the calls in \<^verbatim>\<open>_tokenize_sequence\<close>, and the entropy of the jitter offset.

  After tokenization the dictionary holds token tensors in place of the event lists;
  \<open>frames_in\<close> is its \<^verbatim>\<open>frames\<close> and \<open>beatmap_idx_out\<close> its \<^verbatim>\<open>beatmap_idx\<close>, which the
  third draw may have replaced by \<^verbatim>\<open>num_classes\<close>. The keys \<^verbatim>\<open>difficulty\<close>,
  \<^verbatim>\<open>other_beatmap_idx\<close> and \<^verbatim>\<open>other_difficulty\<close> are never read again and are left out.
\<close>

record draws =
  r_style :: real
  r_diff :: real
  r_class :: real
  r_other_style :: real
  r_other_diff :: real
  r_jitter :: nat

record other_tokenized =
  other_tokens :: "int list"
  other_beatmap_idx_token :: int
  other_difficulty_token :: int

record tokenized =
  frames_in :: ndarray2
  tokens :: "int list"
  pre_tokens :: "int list option"
  beatmap_idx_token :: int
  difficulty_token :: int
  beatmap_idx_out :: int
  other_tok :: "other_tokenized option"

definition tokenize_sequence :: "args \<Rightarrow> tokenizer \<Rightarrow> draws \<Rightarrow> sequence \<Rightarrow> tokenized" where
  "tokenize_sequence a tok d sequence =
     \<lparr>frames_in = frames sequence,
      tokens = [sos_id tok] @ map (encode tok) (events sequence) @ [eos_id tok],
      pre_tokens = map_option (map (encode tok)) (pre_events sequence),
      beatmap_idx_token =
        (if r_style d \<ge> class_dropout_prob a then encode_style_idx tok (beatmap_idx sequence)
         else style_unk tok),
      difficulty_token =
        (if r_diff d \<ge> diff_dropout_prob a then encode_diff tok (difficulty sequence)
         else diff_unk tok),
      beatmap_idx_out =
        (if r_class d \<ge> class_dropout_prob a then beatmap_idx sequence else num_classes tok),
      other_tok =
        map_option
          (\<lambda>c. \<lparr>other_tokens = map (encode tok) (other_events c),
                 other_beatmap_idx_token =
                   (if r_other_style d \<ge> class_dropout_prob a
                    then encode_style_idx tok (other_beatmap_idx c) else style_unk tok),
                 other_difficulty_token =
                   (if r_other_diff d \<ge> diff_dropout_prob a
                    then encode_diff tok (other_difficulty c) else diff_unk tok)\<rparr>)
          (other sequence)\<rparr>"

definition pad_frame_sequence :: "iterable \<Rightarrow> ndarray2 \<Rightarrow> py_error + real list" where
  "pad_frame_sequence self frames1 =
     (if int (length (rows frames1)) \<noteq> frame_seq_len self
      then
        let n = min (frame_seq_len self) (int (length (rows frames1))) in
        if frame_seq_len self < 0 then Inl RuntimeError
        else
          let padded_frames = replicate (nat (frame_seq_len self)) (replicate (ncols frames1) 0) in
          bindE (set_slice padded_frames 0 n (py_slice (rows frames1) 0 n)) (\<lambda>padded_frames.
          Inr (concat padded_frames))
      else Inr (concat (rows frames1)))"

text \<open>
  The emitted example: \<open>frames_out\<close> is its flattened \<^verbatim>\<open>frames\<close>, \<open>beatmap_idx_kept\<close> its
  \<^verbatim>\<open>beatmap_idx\<close>. Timing jitter adds one offset to every input id of the
  \<^verbatim>\<open>TIME_SHIFT\<close> range and clamps the sum to that range.
\<close>

record example =
  frames_out :: "real list"
  decoder_input_ids :: "int list"
  decoder_attention_mask :: "bool list"
  labels :: "int list"
  beatmap_idx_kept :: int

definition wrap64 :: "int \<Rightarrow> int" where
  \<comment> \<open>the value of a sum in the tensor's \<^verbatim>\<open>torch.long\<close> type\<close>
  "wrap64 x = (x + 2 ^ 63) mod 2 ^ 64 - 2 ^ 63"

definition clamp :: "int \<Rightarrow> int \<Rightarrow> int \<Rightarrow> int" where
  \<comment> \<open>\<^verbatim>\<open>torch.clamp(x, lo, hi)\<close>\<close>
  "clamp x lo hi = min (max x lo) hi"

definition jitter :: "tokenizer \<Rightarrow> int \<Rightarrow> int \<Rightarrow> int" where
  "jitter tok offset x =
     (if event_start tok TIME_SHIFT \<le> x \<and> x < event_end tok TIME_SHIFT
      then clamp (wrap64 (x + offset)) (event_start tok TIME_SHIFT) (event_end tok TIME_SHIFT - 1)
      else x)"

definition set_item_if :: "bool \<Rightarrow> int list \<Rightarrow> int \<Rightarrow> int \<Rightarrow> py_error + int list" where
  "set_item_if c xs i v = (if c then set_item xs i v else Inr xs)"

text \<open>
  \<^verbatim>\<open>_pad_and_split_token_sequence\<close>, in two parts. The first computes the numbers of
  main, pre-context and guide tokens to copy, \<open>n\<close>, \<open>m\<close> and \<open>o\<close> (written \<open>o'\<close>), and the
  start index of the first segment: the numbers of tokens available, then one of the two
  branches on \<^verbatim>\<open>center_pad_decoder\<close>.
\<close>

definition center_layout :: "int \<Rightarrow> int \<Rightarrow> int \<Rightarrow> int \<Rightarrow> int \<Rightarrow> int \<Rightarrow> int \<times> int \<times> int \<times> int" where
  \<comment> \<open>the branch \<^verbatim>\<open>if self.args.center_pad_decoder\<close>\<close>
  "center_layout tgt_len pre_len stl len_tokens num_pre_tokens num_other_tokens =
     (let n = min (tgt_len - pre_len) (len_tokens - 1);
          m = min (pre_len - stl) num_pre_tokens;
          o' = min (pre_len - m - stl) num_other_tokens
      in (n, m, o', pre_len - m - stl - o'))"

definition left_layout :: "int \<Rightarrow> int \<Rightarrow> int \<Rightarrow> int \<Rightarrow> int \<Rightarrow> int \<Rightarrow> int \<times> int \<times> int \<times> int" where
  \<comment> \<open>the \<^verbatim>\<open>else\<close> branch\<close>
  "left_layout tgt_len min_pre_len stl len_tokens num_pre_tokens num_other_tokens =
     (let n = min (tgt_len - stl - min min_pre_len num_pre_tokens) (len_tokens - 1);
          m = min (tgt_len - n - stl) num_pre_tokens;
          o' = min (tgt_len - n - stl - m) num_other_tokens
      in (n, m, o', 0))"

definition num_pre_tokens_of :: "args \<Rightarrow> tokenized \<Rightarrow> int" where
  "num_pre_tokens_of a sequence =
     (let pre_tokens1 = (case pre_tokens sequence of Some p \<Rightarrow> p | None \<Rightarrow> []);
          num_pre_tokens = (if add_pre_tokens a then int (length pre_tokens1) else 0)
      in if max_pre_token_len a > 0 then min num_pre_tokens (max_pre_token_len a)
         else num_pre_tokens)"

definition num_other_tokens_of :: "args \<Rightarrow> tokenized \<Rightarrow> int" where
  "num_other_tokens_of a sequence =
     (case other_tok sequence of
        Some c \<Rightarrow> int (length (other_tokens c)) + special_token_len a
      | None \<Rightarrow> 0)"

definition layout :: "args \<Rightarrow> iterable \<Rightarrow> tokenized \<Rightarrow> int \<times> int \<times> int \<times> int" where
  "layout a self sequence =
     (let stl = special_token_len a;
          tokens1 = tokens sequence;
          num_pre_tokens = num_pre_tokens_of a sequence;
          num_other_tokens = num_other_tokens_of a sequence
      in
      if center_pad_decoder a
      then center_layout (tgt_seq_len a) (pre_token_len self) stl (int (length tokens1))
             num_pre_tokens num_other_tokens
      else left_layout (tgt_seq_len a) (min_pre_token_len self) stl (int (length tokens1))
             num_pre_tokens num_other_tokens)"

text \<open>
  The second part fills the two tensors. \<^verbatim>\<open>torch.full\<close> raises on a negative size. The
  guide keys are read only when \<open>o > 0\<close>.
\<close>

definition pad_and_split_token_sequence ::
  "args \<Rightarrow> iterable \<Rightarrow> tokenizer \<Rightarrow> draws \<Rightarrow> tokenized \<Rightarrow> real list \<Rightarrow> py_error + example" where
  "pad_and_split_token_sequence a self tok d sequence flat_frames =
     (let stl = special_token_len a;
          tokens1 = tokens sequence;
          pre_tokens1 = (case pre_tokens sequence of Some p \<Rightarrow> p | None \<Rightarrow> []);
          other_tokens1 = (case other_tok sequence of Some c \<Rightarrow> other_tokens c | None \<Rightarrow> [])
      in
      if tgt_seq_len a < 0 then Inl RuntimeError
      else
        let input_tokens = replicate (nat (tgt_seq_len a)) (pad_id tok);
            label_tokens = replicate (nat (tgt_seq_len a)) LABEL_IGNORE_ID
        in
        case layout a self sequence of
          (n, m, o', start_index) \<Rightarrow>
        bindE (if o' > 0
               then
                 (case other_tok sequence of
                    None \<Rightarrow> Inl KeyError
                  | Some c \<Rightarrow>
                      bindE (set_item_if (diff_token_index a \<ge> 0) input_tokens
                               (start_index + diff_token_index a) (other_difficulty_token c))
                        (\<lambda>input_tokens.
                      bindE (set_item_if (style_token_index a \<ge> 0) input_tokens
                               (start_index + style_token_index a) (other_beatmap_idx_token c))
                        (\<lambda>input_tokens.
                      if o' > stl
                      then set_slice input_tokens (start_index + stl) (start_index + o')
                             (py_slice other_tokens1 0 (o' - stl))
                      else Inr input_tokens)))
               else Inr input_tokens) (\<lambda>input_tokens.
        let start_index = start_index + o' in
        bindE (set_item_if (diff_token_index a \<ge> 0) input_tokens
                 (start_index + diff_token_index a) (difficulty_token sequence)) (\<lambda>input_tokens.
        bindE (set_item_if (style_token_index a \<ge> 0) input_tokens
                 (start_index + style_token_index a) (beatmap_idx_token sequence)) (\<lambda>input_tokens.
        bindE (if m > 0
               then set_slice input_tokens (start_index + stl) (start_index + m + stl)
                      (py_slice_from pre_tokens1 (- m))
               else Inr input_tokens) (\<lambda>input_tokens.
        bindE (set_slice input_tokens (start_index + m + stl) (start_index + m + stl + n)
                 (py_slice tokens1 0 n)) (\<lambda>input_tokens.
        bindE (set_slice label_tokens (start_index + m + stl) (start_index + m + stl + n)
                 (py_slice tokens1 1 (n + 1))) (\<lambda>label_tokens.
        bindE (if timing_random_offset a > 0
               then bindE (randint (- timing_random_offset a) (frame_seq_len self) (r_jitter d))
                      (\<lambda>offset. Inr (map (jitter tok offset) input_tokens))
               else Inr input_tokens) (\<lambda>input_tokens.
        Inr \<lparr>frames_out = flat_frames,
             decoder_input_ids = input_tokens,
             decoder_attention_mask = map (\<lambda>x. x \<noteq> pad_id tok) input_tokens,
             labels = label_tokens,
             beatmap_idx_kept = beatmap_idx_out sequence\<rparr>))))))))"

section \<open>The iterator (\<^verbatim>\<open>_get_next_beatmap\<close>)\<close>

text \<open>
  The loop is a generator: its result is the list of the examples yielded, the exception
  that ended it (if any) and the iterator state it leaves. The inputs are what the
  collaborators deliver: the audio samples, the parsed events, class index and difficulty
  of the beatmap, and the guide beatmap when guide context is configured.
\<close>

definition process_sequence ::
  "args \<Rightarrow> iterable \<Rightarrow> tokenizer \<Rightarrow> draws \<Rightarrow> sequence \<Rightarrow> py_error + example" where
  "process_sequence a self tok d sequence =
     bindE (trim_time_shifts sequence) (\<lambda>sequence.
     let sequence = tokenize_sequence a tok d sequence in
     bindE (pad_frame_sequence self (frames_in sequence)) (\<lambda>flat_frames.
     pad_and_split_token_sequence a self tok d sequence flat_frames))"

definition is_empty_labels :: "tokenizer \<Rightarrow> int list \<Rightarrow> bool" where
  \<comment> \<open>\<^verbatim>\<open>((labels == eos_id) | (labels == pad_id)).all()\<close>\<close>
  "is_empty_labels tok ls = list_all (\<lambda>l. l = eos_id tok \<or> l = pad_id tok) ls"

fun emit_loop ::
  "args \<Rightarrow> tokenizer \<Rightarrow> (nat \<Rightarrow> int) option \<Rightarrow> (nat \<Rightarrow> draws) \<Rightarrow> nat \<Rightarrow> iterable \<Rightarrow>
     sequence list \<Rightarrow> example list \<times> py_error option \<times> iterable" where
  "emit_loop a tok shared ds k self [] = ([], None, self)"
| "emit_loop a tok shared ds k self (sequence # rest) =
     (let self1 = maybe_change_dataset a shared k self in
      case process_sequence a self1 tok (ds k) sequence of
        Inl e \<Rightarrow> ([], Some e, self1)
      | Inr ex \<Rightarrow>
          (case emit_loop a tok shared ds (k + 1) self1 rest of
             (out, err, self2) \<Rightarrow>
               if \<not> self_add_empty_sequences self1 \<and> is_empty_labels tok (labels ex)
               then (out, err, self2)
               else (ex # out, err, self2)))"

definition get_next_beatmap ::
  "args \<Rightarrow> iterable \<Rightarrow> tokenizer \<Rightarrow> (nat \<Rightarrow> int) option \<Rightarrow> nat \<Rightarrow> (nat \<Rightarrow> draws) \<Rightarrow>
     real list \<Rightarrow> event list \<Rightarrow> int \<Rightarrow> real \<Rightarrow> guide option \<Rightarrow>
     example list \<times> py_error option \<times> iterable" where
  "get_next_beatmap a self tok shared r_offset ds audio_samples events1 current_idx difficulty1
       other1 =
     (case get_frames a audio_samples of
        Inl e \<Rightarrow> ([], Some e, self)
      | Inr (frames1, frame_times) \<Rightarrow>
          (case create_sequences a self r_offset frames1 frame_times events1 current_idx
                  difficulty1 other1 of
             Inl e \<Rightarrow> ([], Some e, self)
           | Inr sequences \<Rightarrow> emit_loop a tok shared ds 0 self sequences))"

section \<open>A concrete run\<close>

text \<open>
  One beatmap of nine samples and four events, with hop length 4 and windows of two
  frames: the random offset is 1, so one window is produced, starting at frame 1.
\<close>

definition demo_args :: args where
  "demo_args =
     \<lparr>src_seq_len = 3, tgt_seq_len = 8, sample_rate = 1000, hop_length = 4,
      special_token_len = 2, class_dropout_prob = 1 / 5, diff_dropout_prob = 1 / 5,
      add_pre_tokens = False, add_pre_tokens_at_step = - 1, max_pre_token_len = - 1,
      add_empty_sequences = False, add_empty_sequences_at_step = - 1,
      center_pad_decoder = False, diff_token_index = 0, style_token_index = 1,
      timing_random_offset = 0\<rparr>"

definition demo_tokenizer :: tokenizer where
  "demo_tokenizer =
     \<lparr>sos_id = 1, eos_id = 2, pad_id = 0, style_unk = 90, diff_unk = 80, num_classes = 50,
      encode = (\<lambda>e. if etype e = TIME_SHIFT then 100 + evalue e else 300 + evalue e),
      encode_style_idx = (\<lambda>i. 30 + i),
      encode_diff = (\<lambda>x. 60 + \<lfloor>x\<rfloor>),
      event_start = (\<lambda>t. if t = TIME_SHIFT then 100 else 300),
      event_end = (\<lambda>t. if t = TIME_SHIFT then 300 else 400)\<rparr>"

definition demo_draws :: draws where
  "demo_draws = \<lparr>r_style = 1 / 2, r_diff = 1 / 2, r_class = 1 / 10, r_other_style = 1 / 2,
                 r_other_diff = 1 / 2, r_jitter = 5\<rparr>"

definition demo_events :: "event list" where
  "demo_events =
     [Event TIME_SHIFT 0, Event (OTHER_TYPE ''CIRCLE'') 0, Event TIME_SHIFT 5,
      Event (OTHER_TYPE ''CIRCLE'') 1]"

definition demo_frame_times :: "float64 list" where
  "demo_frame_times = [Float False 0, Float False 4, Float False 8]"

definition demo_window :: sequence where
  "demo_window =
     \<lparr>time = Some (Float False 4), frames = Array2 4 [[5, 6, 7, 8], [9, 0, 0, 0]],
      events = [Event TIME_SHIFT 5, Event (OTHER_TYPE ''CIRCLE'') 1],
      beatmap_idx = 7, difficulty = 5, pre_events = None, other = None\<rparr>"

definition demo_example :: example where
  "demo_example =
     \<lparr>frames_out = [5, 6, 7, 8, 9, 0, 0, 0],
      decoder_input_ids = [65, 37, 1, 100, 301, 0, 0, 0],
      decoder_attention_mask = [True, True, True, True, True, False, False, False],
      labels = [- 100, - 100, 100, 301, 2, - 100, - 100, - 100],
      beatmap_idx_kept = 50\<rparr>"

text \<open>
  Two variants of the run: with timing jitter, and with a target length that leaves no
  room for main tokens.
\<close>

definition jitter_args :: args where
  "jitter_args = demo_args\<lparr>timing_random_offset := 3\<rparr>"

definition jitter_example :: example where
  "jitter_example = demo_example\<lparr>decoder_input_ids := [65, 37, 1, 102, 301, 0, 0, 0]\<rparr>"





lemma replicate_numeral_nat: "replicate (numeral k) x = x # replicate (pred_numeral k) x"
  by (simp add: numeral_eq_Suc)

lemma demo_get_frames:
  "get_frames demo_args [1, 2, 3, 4, 5, 6, 7, 8, 9]
     = Inr (Array2 4 [[1, 2, 3, 4], [5, 6, 7, 8], [9, 0, 0, 0]], demo_frame_times)"
  by (simp add: get_frames_def demo_args_def reshape_rows_def MILISECONDS_PER_SECOND_def
      upt_conv_Cons replicate_numeral_nat demo_frame_times_def float64_eval bindE_simps Let_def)

lemma demo_event_indices:
  "get_event_indices demo_frame_times demo_events = Inr ([0, 2, 3], [2, 3, 4])"
  by (simp add: get_event_indices_def demo_events_def demo_frame_times_def time_less_def
      float64_eval signed_def bindE_simps Let_def)

lemma demo_shift: "time_shift_value 5 (Float False 4) = Inr 0"
  by (simp add: time_shift_value_def steps_value float64_eval bindE_simps Let_def)

lemma demo_create_sequences:
  "create_sequences demo_args (init_iterable demo_args False) 4
      (Array2 4 [[1, 2, 3, 4], [5, 6, 7, 8], [9, 0, 0, 0]]) demo_frame_times demo_events 7 5 None
     = Inr [demo_window]"
  unfolding create_sequences_def demo_event_indices bindE_simps
  by (simp add: init_iterable_def demo_args_def randint_def py_range_def bindE_def
      create_sequence_def py_get_def py_slice_def slice_bound_def demo_events_def demo_window_def
      demo_frame_times_def upt_conv_Cons Let_def)

lemma demo_process_sequence:
  "process_sequence demo_args (init_iterable demo_args False) demo_tokenizer demo_draws demo_window
     = Inr demo_example"
  by (simp add: process_sequence_def trim_time_shifts_def demo_window_def process_def
      rewrite_time_shifts_def demo_shift bindE_simps tokenize_sequence_def
      demo_tokenizer_def demo_draws_def demo_args_def init_iterable_def pad_frame_sequence_def
      pad_and_split_token_sequence_def layout_def left_layout_def num_pre_tokens_of_def
      num_other_tokens_of_def bindE_def set_item_if_def set_item_def
      set_slice_def py_slice_def slice_bound_def LABEL_IGNORE_ID_def demo_example_def
      replicate_numeral_nat Let_def)

lemma demo_flags:
  "maybe_change_dataset demo_args None k self = self"
  "self_add_empty_sequences (init_iterable demo_args False) = False"
  "is_empty_labels demo_tokenizer (labels demo_example) = False"
  by (simp_all add: maybe_change_dataset_def init_iterable_def demo_args_def is_empty_labels_def
      demo_example_def demo_tokenizer_def)

lemma demo_run:
  "get_next_beatmap demo_args (init_iterable demo_args False) demo_tokenizer None 4
      (\<lambda>k. demo_draws) [1, 2, 3, 4, 5, 6, 7, 8, 9] demo_events 7 5 None
     = ([demo_example], None, init_iterable demo_args False)"
  by (simp add: get_next_beatmap_def demo_get_frames demo_create_sequences demo_flags
      demo_process_sequence)


lemma jitter_get_frames:
  "get_frames jitter_args [1, 2, 3, 4, 5, 6, 7, 8, 9]
     = Inr (Array2 4 [[1, 2, 3, 4], [5, 6, 7, 8], [9, 0, 0, 0]], demo_frame_times)"
  by (simp add: get_frames_def jitter_args_def demo_args_def reshape_rows_def
      MILISECONDS_PER_SECOND_def upt_conv_Cons replicate_numeral_nat demo_frame_times_def float64_eval bindE_simps Let_def)

lemma jitter_create_sequences:
  "create_sequences jitter_args (init_iterable jitter_args False) 4
      (Array2 4 [[1, 2, 3, 4], [5, 6, 7, 8], [9, 0, 0, 0]]) demo_frame_times demo_events 7 5 None
     = Inr [demo_window]"
  unfolding create_sequences_def demo_event_indices bindE_simps
  by (simp add: init_iterable_def jitter_args_def demo_args_def randint_def py_range_def bindE_def
      create_sequence_def py_get_def py_slice_def slice_bound_def demo_events_def demo_window_def
      demo_frame_times_def upt_conv_Cons Let_def)

lemma jitter_process_sequence:
  "process_sequence jitter_args (init_iterable jitter_args False) demo_tokenizer demo_draws
      demo_window = Inr jitter_example"
  by (simp add: process_sequence_def trim_time_shifts_def demo_window_def process_def
      rewrite_time_shifts_def demo_shift bindE_simps tokenize_sequence_def
      demo_tokenizer_def demo_draws_def jitter_args_def demo_args_def init_iterable_def
      pad_frame_sequence_def pad_and_split_token_sequence_def layout_def left_layout_def
      num_pre_tokens_of_def num_other_tokens_of_def bindE_def set_item_if_def set_item_def
      set_slice_def py_slice_def slice_bound_def LABEL_IGNORE_ID_def demo_example_def
      jitter_example_def randint_def jitter_def wrap64_def clamp_def
      replicate_numeral_nat Let_def)

lemma jitter_flags:
  "maybe_change_dataset jitter_args None k self = self"
  "self_add_empty_sequences (init_iterable jitter_args False) = False"
  "is_empty_labels demo_tokenizer (labels jitter_example) = False"
  by (simp_all add: maybe_change_dataset_def init_iterable_def jitter_args_def demo_args_def
      is_empty_labels_def jitter_example_def demo_example_def demo_tokenizer_def)

lemma jitter_run:
  "get_next_beatmap jitter_args (init_iterable jitter_args False) demo_tokenizer None 4
      (\<lambda>k. demo_draws) [1, 2, 3, 4, 5, 6, 7, 8, 9] demo_events 7 5 None
     = ([jitter_example], None, init_iterable jitter_args False)"
  by (simp add: get_next_beatmap_def jitter_get_frames jitter_create_sequences jitter_flags
      jitter_process_sequence)











section \<open>Claims on frames and tokens\<close>

subsection \<open>Frame segmentation\<close>

lemma reshape_rows_length: "length (reshape_rows k xs) = length xs div k"
  by (simp add: reshape_rows_def)

lemma reshape_rows_width: "0 < k \<Longrightarrow> row \<in> set (reshape_rows k xs) \<Longrightarrow> length row = k"
proof -
  assume k: "0 < k" and "row \<in> set (reshape_rows k xs)"
  then obtain i where i: "i < length xs div k" and row: "row = take k (drop (i * k) xs)"
    by (auto simp: reshape_rows_def)
  from i have "Suc i \<le> length xs div k" by simp
  then have "Suc i * k \<le> length xs div k * k" by (rule mult_le_mono1)
  also have "\<dots> \<le> length xs" by simp
  finally have "i * k + k \<le> length xs" by simp
  with row show ?thesis by simp
qed

lemma concat_rows_take:
  "concat (map (\<lambda>i. take k (drop (i * k) xs)) [0..<n]) = take (n * k) xs"
proof (induction n)
  case 0
  then show ?case by simp
next
  case (Suc n)
  have "take (n * k + k) xs = take (n * k) xs @ take k (drop (n * k) xs)"
    by (rule take_add)
  with Suc show ?case by (simp add: add.commute)
qed

lemma reshape_rows_concat: "k dvd length xs \<Longrightarrow> concat (reshape_rows k xs) = xs"
  by (auto simp: reshape_rows_def concat_rows_take)

lemma milliseconds_float: "float_of_int MILISECONDS_PER_SECOND = Inr (Float False 1000)"
  by (simp add: MILISECONDS_PER_SECOND_def float64_eval Let_def)

lemma float_truediv_int_milliseconds:
  "float_truediv_int q MILISECONDS_PER_SECOND = Inr (float_div q (Float False 1000))"
  by (simp add: float_truediv_int_def milliseconds_float bindE_simps)

lemma get_frames_Inr:
  assumes "get_frames a samples = Inr (frames1, frame_times)"
  shows "0 < hop_length a"
    and "ncols frames1 = nat (hop_length a)"
    and "rows frames1 = reshape_rows (nat (hop_length a))
            (samples @ replicate (nat (hop_length a - int (length samples) mod hop_length a)) 0)"
    and "length frame_times = length (rows frames1)"
proof -
  have nz: "hop_length a \<noteq> 0" using assms by (auto simp: get_frames_def)
  have "\<not> hop_length a - int (length samples) mod hop_length a < 0"
    using assms nz by (auto simp: get_frames_def Let_def split: if_splits)
  moreover have "hop_length a < 0 \<Longrightarrow> hop_length a - int (length samples) mod hop_length a < 0"
    using neg_mod_bound [of "hop_length a" "int (length samples)"] by linarith
  ultimately show "0 < hop_length a" using nz by linarith
  show "ncols frames1 = nat (hop_length a)"
    using assms by (auto simp: get_frames_def Let_def bindE_Inr split: if_splits)
  show "rows frames1 = reshape_rows (nat (hop_length a))
            (samples @ replicate (nat (hop_length a - int (length samples) mod hop_length a)) 0)"
    using assms by (auto simp: get_frames_def Let_def bindE_Inr split: if_splits)
  show "length frame_times = length (rows frames1)"
    using assms by (auto simp: get_frames_def Let_def bindE_Inr split: if_splits)
qed

lemma get_frames_succeeds:
  assumes "0 < hop_length a"
  shows "(\<exists>frames1 frame_times. get_frames a samples = Inr (frames1, frame_times))
           \<longleftrightarrow> (\<exists>q. int_truediv (sample_rate a) (hop_length a) = Inr q)"
proof -
  have pad: "\<not> hop_length a - int (length samples) mod hop_length a < 0"
    using pos_mod_bound [of "hop_length a" "int (length samples)"] assms by linarith
  show ?thesis
    using assms pad
    by (auto simp: get_frames_def Let_def bindE_Inr float_truediv_int_milliseconds)
qed

lemma int_truediv_finite:
  assumes "0 < b" and "\<bar>a\<bar> < 2 ^ 1023"
  shows "\<exists>q. int_truediv a b = Inr q"
proof -
  have b: "(1::real) \<le> \<bar>of_int b\<bar>" using assms(1) by simp
  have "\<bar>of_int a :: real\<bar> = of_int \<bar>a\<bar>" by simp
  also have "\<dots> < of_int (2 ^ 1023)" using assms(2) by (simp only: of_int_less_iff)
  finally have a: "\<bar>of_int a :: real\<bar> < 2 ^ 1023" by simp
  have "\<bar>of_int a :: real\<bar> / \<bar>of_int b\<bar> \<le> \<bar>of_int a\<bar> / 1"
    using b by (intro divide_left_mono) simp_all
  with a have "\<bar>of_int a :: real\<bar> / \<bar>of_int b\<bar> < 2 ^ 1023" by simp
  moreover have "0 \<le> \<bar>of_int a :: real\<bar> / \<bar>of_int b\<bar>" by simp
  ultimately obtain m where "round_magnitude (\<bar>of_int a\<bar> / \<bar>of_int b\<bar>) = Some m"
    using round_magnitude_finite by blast
  with assms(1) show ?thesis by (simp add: int_truediv_def)
qed

lemma padded_length:
  assumes "0 < (h::int)"
  shows "length (samples @ replicate (nat (h - int (length samples) mod h)) (0::real))
           = (length samples div nat h + 1) * nat h"
proof -
  define k where "k = nat h"
  have k: "0 < k" "h = int k" using assms by (simp_all add: k_def)
  have "nat (int k - int (length samples mod k)) = k - length samples mod k"
    by simp
  then have "nat (h - int (length samples) mod h) = k - length samples mod k"
    unfolding k(2) by (simp add: zmod_int)
  moreover have "length samples mod k < k" using k by simp
  moreover have "length samples - length samples mod k = length samples div k * k"
    by (simp add: minus_mod_eq_div_mult)
  moreover have "length samples mod k \<le> length samples" by (rule mod_less_eq_dividend)
  ultimately have "length samples + nat (h - int (length samples) mod h)
                     = length samples div k * k + k"
    by linarith
  then show ?thesis unfolding k_def [symmetric] by simp
qed

text \<open>
  C5 (as amended). For a positive hop length the segmenter returns unless the quotient of
  sample rate and hop length is too large for a float, so it returns for every sample rate
  below \<open>2^1023\<close> in magnitude. It returns \<open>L div hop_length + 1\<close> frames for a sample
  array of length \<open>L\<close>, each of width \<open>hop_length\<close>; flattened, they are the samples
  followed by \<open>hop_length - L mod hop_length\<close> zeros. The number of frames is
  \<open>ceil(L / hop_length)\<close> whenever \<open>L\<close> is not a multiple of \<open>hop_length\<close>; when it is, a
  whole frame of zeros is appended and the count is one more.
\<close>

theorem frame_count:
  assumes "0 < hop_length a"
  shows "((\<exists>frames1 frame_times. get_frames a samples = Inr (frames1, frame_times))
            \<longleftrightarrow> (\<exists>q. int_truediv (sample_rate a) (hop_length a) = Inr q))
       \<and> (\<bar>sample_rate a\<bar> < 2 ^ 1023 \<longrightarrow>
            (\<exists>frames1 frame_times. get_frames a samples = Inr (frames1, frame_times)))
       \<and> (\<forall>frames1 frame_times.
            get_frames a samples = Inr (frames1, frame_times) \<longrightarrow>
              int (length (rows frames1)) = int (length samples) div hop_length a + 1
            \<and> (\<forall>row\<in>set (rows frames1). int (length row) = hop_length a)
            \<and> concat (rows frames1)
                = samples @ replicate (nat (hop_length a - int (length samples) mod hop_length a)) 0
            \<and> length frame_times = length (rows frames1)
            \<and> (\<not> hop_length a dvd int (length samples) \<longrightarrow>
                 int (length (rows frames1))
                   = \<lceil>real (length samples) / real_of_int (hop_length a)\<rceil>))"
proof (intro conjI allI impI)
  show "(\<exists>frames1 frame_times. get_frames a samples = Inr (frames1, frame_times))
            \<longleftrightarrow> (\<exists>q. int_truediv (sample_rate a) (hop_length a) = Inr q)"
    by (rule get_frames_succeeds [OF assms])
  show "\<exists>frames1 frame_times. get_frames a samples = Inr (frames1, frame_times)"
    if "\<bar>sample_rate a\<bar> < 2 ^ 1023"
    using get_frames_succeeds [OF assms, of samples] int_truediv_finite [OF assms that] by simp
next
  fix frames1 frame_times
  assume g: "get_frames a samples = Inr (frames1, frame_times)"
  define k where "k = nat (hop_length a)"
  have k: "0 < k" "hop_length a = int k" using assms by (simp_all add: k_def)
  let ?pad = "hop_length a - int (length samples) mod hop_length a"
  let ?xs = "samples @ replicate (nat ?pad) (0::real)"
  note r = get_frames_Inr [OF g]
  have len: "length ?xs = (length samples div k + 1) * k"
    using padded_length [OF assms(1), of samples] by (simp add: k_def)
  have n: "length (rows frames1) = length samples div k + 1"
    unfolding r(3) reshape_rows_length k_def [symmetric] len using k(1) by simp
  show "int (length (rows frames1)) = int (length samples) div hop_length a + 1"
    unfolding n k(2) by (simp add: zdiv_int)
  show "\<forall>row\<in>set (rows frames1). int (length row) = hop_length a"
    using reshape_rows_width [OF k(1)] unfolding r(3) k_def [symmetric] k(2) by auto
  have "k dvd length ?xs" unfolding len by simp
  then show "concat (rows frames1) = ?xs"
    unfolding r(3) k_def [symmetric] by (rule reshape_rows_concat)
  show "length frame_times = length (rows frames1)" by (rule r(4))
  show "int (length (rows frames1)) = \<lceil>real (length samples) / real_of_int (hop_length a)\<rceil>"
    if nd: "\<not> hop_length a dvd int (length samples)"
  proof -
    have ndk: "\<not> k dvd length samples" using nd unfolding k(2) by simp
    then have md: "0 < length samples mod k" by (simp add: dvd_eq_mod_eq_0)
    have dm: "real (length samples) = real (length samples div k) * real k + real (length samples mod k)"
      by (metis div_mult_mod_eq of_nat_add of_nat_mult)
    have lt: "real (length samples mod k) < real k" using k(1) by simp
    have "\<lceil>real (length samples) / real k\<rceil> = int (length samples div k) + 1"
    proof (rule ceiling_unique)
      have "real (length samples div k) * real k < real (length samples)"
        using dm md by simp
      then show "of_int (int (length samples div k) + 1) - 1 < real (length samples) / real k"
        using k(1) by (simp add: pos_less_divide_eq)
      have "real (length samples) \<le> (real (length samples div k) + 1) * real k"
        using dm lt by (simp add: algebra_simps)
      then show "real (length samples) / real k \<le> of_int (int (length samples div k) + 1)"
        using k(1) by (simp add: pos_divide_le_eq)
    qed
    then show ?thesis unfolding n k(2) by simp
  qed
qed

theorem frame_count_witness:
  "\<exists>frames1 frame_times.
       get_frames demo_args [1, 2, 3, 4, 5, 6, 7, 8, 9] = Inr (frames1, frame_times)
     \<and> int (length (rows frames1)) = 9 div 4 + 1
     \<and> int (length (rows frames1)) = \<lceil>(9::real) / 4\<rceil>"
proof -
  have h: "0 < hop_length demo_args" "\<bar>sample_rate demo_args\<bar> < 2 ^ 1023"
    "\<not> hop_length demo_args dvd int (length [1, 2, 3, 4, 5, 6, 7, 8, 9 :: real])"
    by (simp_all add: demo_args_def)
  from frame_count [OF h(1), of "[1, 2, 3, 4, 5, 6, 7, 8, 9]"] h(2,3)
  show ?thesis by (auto simp: demo_args_def)
qed

text \<open>
  C5 as stated fails at an exact multiple: eight samples with hop length four give three
  frames, the last one all zeros, and \<open>ceil(8 / 4) = 2\<close>.
\<close>

theorem frame_count_multiple_counterexample:
  "get_frames demo_args [1, 2, 3, 4, 5, 6, 7, 8]
     = Inr (Array2 4 [[1, 2, 3, 4], [5, 6, 7, 8], [0, 0, 0, 0]], demo_frame_times)
   \<and> \<lceil>real (length [1, 2, 3, 4, 5, 6, 7, 8 :: real]) / real_of_int (hop_length demo_args)\<rceil> = 2"
  by (simp add: get_frames_def demo_args_def reshape_rows_def MILISECONDS_PER_SECOND_def
      upt_conv_Cons replicate_numeral_nat demo_frame_times_def float64_eval bindE_simps Let_def)

subsection \<open>Class dropout\<close>

text \<open>
  C9 (as amended). The style token and the emitted class index are decided by two
  separate random draws of the window: the token is the unknown-style placeholder when
  the first draw is below \<^verbatim>\<open>class_dropout_prob\<close>, the class index is the unknown class
  id when the third draw is below it. The two agree when both draws fall on the same side
  of the threshold (and the encoder does not map the class to the placeholder itself).
\<close>

theorem class_dropout_two_draws:
  "beatmap_idx_token (tokenize_sequence a tok d sequence)
      = (if class_dropout_prob a \<le> r_style d then encode_style_idx tok (beatmap_idx sequence)
         else style_unk tok)
   \<and> beatmap_idx_out (tokenize_sequence a tok d sequence)
      = (if class_dropout_prob a \<le> r_class d then beatmap_idx sequence else num_classes tok)
   \<and> ((class_dropout_prob a \<le> r_style d) = (class_dropout_prob a \<le> r_class d)
        \<and> encode_style_idx tok (beatmap_idx sequence) \<noteq> style_unk tok
        \<and> beatmap_idx sequence \<noteq> num_classes tok
      \<longrightarrow> (beatmap_idx_token (tokenize_sequence a tok d sequence) = style_unk tok
            \<longleftrightarrow> beatmap_idx_out (tokenize_sequence a tok d sequence) = num_classes tok))"
  by (simp add: tokenize_sequence_def)


theorem class_dropout_two_draws_witness:
  "beatmap_idx_token
      (tokenize_sequence demo_args demo_tokenizer (demo_draws\<lparr>r_class := 1 / 2\<rparr>) demo_window) = 37
   \<and> beatmap_idx_out
      (tokenize_sequence demo_args demo_tokenizer (demo_draws\<lparr>r_class := 1 / 2\<rparr>) demo_window) = 7"
  using class_dropout_two_draws
          [of demo_args demo_tokenizer "demo_draws\<lparr>r_class := 1 / 2\<rparr>" demo_window]
  by (simp add: demo_args_def demo_tokenizer_def demo_draws_def demo_window_def)

text \<open>
  C9 as stated fails: in the concrete run the style draw is above the threshold and the
  class draw below it, so the emitted example carries the style token of class 7 next to
  the unknown class id.
\<close>

theorem class_dropout_disagrees_counterexample:
  "fst (get_next_beatmap demo_args (init_iterable demo_args False) demo_tokenizer None 4
          (\<lambda>k. demo_draws) [1, 2, 3, 4, 5, 6, 7, 8, 9] demo_events 7 5 None) = [demo_example]
   \<and> decoder_input_ids demo_example ! nat (style_token_index demo_args)
        = encode_style_idx demo_tokenizer 7
   \<and> decoder_input_ids demo_example ! nat (style_token_index demo_args)
        \<noteq> style_unk demo_tokenizer
   \<and> beatmap_idx_kept demo_example = num_classes demo_tokenizer"
  by (simp add: demo_run) (simp add: demo_example_def demo_args_def demo_tokenizer_def)


section \<open>Lengths of the packed tensors\<close>

lemma slice_bound_le: "slice_bound n i \<le> n"
  by (auto simp: slice_bound_def)

lemma set_slice_Inr:
  assumes "set_slice xs a b src = Inr ys"
  defines "lo \<equiv> slice_bound (length xs) a"
  defines "len \<equiv> slice_bound (length xs) b - slice_bound (length xs) a"
  shows "\<exists>src'. ys = take lo xs @ src' @ drop (lo + len) xs \<and> length src' = len
            \<and> lo + len \<le> length xs
            \<and> (src' = src \<or> (length src = 1 \<and> src' = replicate len (hd src)))"
proof -
  have b: "lo + len \<le> length xs"
    using slice_bound_le [of "length xs" a] slice_bound_le [of "length xs" b]
    unfolding lo_def len_def by linarith
  show ?thesis
  proof (cases "length src = len")
    case True
    with assms(1) have "ys = take lo xs @ src @ drop (lo + len) xs"
      by (simp add: set_slice_def Let_def lo_def len_def)
    with True b show ?thesis by blast
  next
    case False
    with assms(1) have "length src = 1" "ys = take lo xs @ replicate len (hd src) @ drop (lo + len) xs"
      by (auto simp: set_slice_def Let_def lo_def len_def split: if_splits)
    with b show ?thesis by auto
  qed
qed

lemma set_slice_length: "set_slice xs a b src = Inr ys \<Longrightarrow> length ys = length xs"
proof -
  assume "set_slice xs a b src = Inr ys"
  from set_slice_Inr [OF this] show ?thesis by auto
qed

lemma set_item_length: "set_item xs i v = Inr ys \<Longrightarrow> length ys = length xs"
  by (auto simp: set_item_def Let_def split: if_splits)

lemma set_item_if_length: "set_item_if c xs i v = Inr ys \<Longrightarrow> length ys = length xs"
  by (auto simp: set_item_if_def set_item_length split: if_splits)

lemma pad_and_split_Inr:
  assumes "pad_and_split_token_sequence a self tok d sq flat = Inr ex"
  shows "\<exists>n m o' s inp0 inp.
           0 \<le> tgt_seq_len a
         \<and> layout a self sq = (n, m, o', s)
         \<and> length inp0 = nat (tgt_seq_len a)
         \<and> set_slice inp0 (s + o' + m + special_token_len a)
               (s + o' + m + special_token_len a + n) (py_slice (tokens sq) 0 n) = Inr inp
         \<and> set_slice (replicate (nat (tgt_seq_len a)) LABEL_IGNORE_ID)
               (s + o' + m + special_token_len a)
               (s + o' + m + special_token_len a + n) (py_slice (tokens sq) 1 (n + 1))
               = Inr (labels ex)
         \<and> (if timing_random_offset a > 0
              then \<exists>offset. randint (- timing_random_offset a) (frame_seq_len self) (r_jitter d)
                               = Inr offset
                     \<and> decoder_input_ids ex = map (jitter tok offset) inp
              else decoder_input_ids ex = inp)
         \<and> decoder_attention_mask ex = map (\<lambda>x. x \<noteq> pad_id tok) (decoder_input_ids ex)
         \<and> frames_out ex = flat
         \<and> beatmap_idx_kept ex = beatmap_idx_out sq"
proof -
  obtain n m o' s where lay: "layout a self sq = (n, m, o', s)"
    by (cases "layout a self sq") auto
  have tgt: "0 \<le> tgt_seq_len a"
    using assms by (auto simp: pad_and_split_token_sequence_def Let_def split: if_splits)
  from assms tgt lay obtain i1 i2 i3 i4 i5 lab i6 where
    s1: "(if o' > 0
               then
                 (case other_tok sq of
                    None \<Rightarrow> Inl KeyError
                  | Some c \<Rightarrow>
                      bindE (set_item_if (diff_token_index a \<ge> 0) (replicate (nat (tgt_seq_len a)) (pad_id tok))
                               (s + diff_token_index a) (other_difficulty_token c))
                        (\<lambda>input_tokens.
                      bindE (set_item_if (style_token_index a \<ge> 0) input_tokens
                               (s + style_token_index a) (other_beatmap_idx_token c))
                        (\<lambda>input_tokens.
                      if o' > special_token_len a
                      then set_slice input_tokens (s + special_token_len a) (s + o')
                             (py_slice (case other_tok sq of Some c \<Rightarrow> other_tokens c | None \<Rightarrow> []) 0 (o' - special_token_len a))
                      else Inr input_tokens)))
               else Inr (replicate (nat (tgt_seq_len a)) (pad_id tok))) = Inr i1"
    and s2: "set_item_if (diff_token_index a \<ge> 0) i1
                 (s + o' + diff_token_index a) (difficulty_token sq) = Inr i2"
    and s3: "set_item_if (style_token_index a \<ge> 0) i2
                 (s + o' + style_token_index a) (beatmap_idx_token sq) = Inr i3"
    and s4: "(if m > 0
               then set_slice i3 (s + o' + special_token_len a) (s + o' + m + special_token_len a)
                      (py_slice_from (case pre_tokens sq of Some p \<Rightarrow> p | None \<Rightarrow> []) (- m))
               else Inr i3) = Inr i4"
    and s5: "set_slice i4 (s + o' + m + special_token_len a) (s + o' + m + special_token_len a + n)
                 (py_slice (tokens sq) 0 n) = Inr i5"
    and s6: "set_slice (replicate (nat (tgt_seq_len a)) LABEL_IGNORE_ID)
                 (s + o' + m + special_token_len a) (s + o' + m + special_token_len a + n)
                 (py_slice (tokens sq) 1 (n + 1)) = Inr lab"
    and s7: "(if timing_random_offset a > 0
               then bindE (randint (- timing_random_offset a) (frame_seq_len self) (r_jitter d))
                      (\<lambda>offset. Inr (map (jitter tok offset) i5))
               else Inr i5) = Inr i6"
    and ex: "ex = \<lparr>frames_out = flat,
             decoder_input_ids = i6,
             decoder_attention_mask = map (\<lambda>x. x \<noteq> pad_id tok) i6,
             labels = lab,
             beatmap_idx_kept = beatmap_idx_out sq\<rparr>"
    unfolding pad_and_split_token_sequence_def Let_def
    by (simp add: bindE_Inr split del: if_split) blast
  have l1: "length i1 = nat (tgt_seq_len a)"
    using s1 by (auto simp: bindE_Inr split: if_splits option.splits
        dest!: set_item_if_length set_slice_length)
  have l4: "length i4 = nat (tgt_seq_len a)"
    using s2 s3 s4 l1 by (auto split: if_splits dest!: set_item_if_length set_slice_length)
  have j: "if timing_random_offset a > 0
           then \<exists>offset. randint (- timing_random_offset a) (frame_seq_len self) (r_jitter d)
                            = Inr offset \<and> i6 = map (jitter tok offset) i5
           else i6 = i5"
    using s7 by (auto simp: bindE_Inr split: if_splits)
  from lay tgt l4 s5 s6 j ex show ?thesis
    by (intro exI [of _ n] exI [of _ m] exI [of _ o'] exI [of _ s] exI [of _ i4] exI [of _ i5]) simp
qed













lemma maybe_change_dataset_frame_seq_len:
  "frame_seq_len (maybe_change_dataset a shared k self) = frame_seq_len self"
  "min_pre_token_len (maybe_change_dataset a shared k self) = min_pre_token_len self"
  "pre_token_len (maybe_change_dataset a shared k self) = pre_token_len self"
  by (simp_all add: maybe_change_dataset_def Let_def split: option.splits)

lemma emit_loop_examples:
  "ex \<in> set (fst (emit_loop a tok shared ds k self seqs)) \<Longrightarrow>
     \<exists>sq\<in>set seqs. \<exists>self' k'. frame_seq_len self' = frame_seq_len self
        \<and> min_pre_token_len self' = min_pre_token_len self
        \<and> pre_token_len self' = pre_token_len self
        \<and> process_sequence a self' tok (ds k') sq = Inr ex"
proof (induction seqs arbitrary: k self)
  case Nil
  then show ?case by simp
next
  case (Cons sq rest)
  let ?self1 = "maybe_change_dataset a shared k self"
  show ?case
  proof (cases "process_sequence a ?self1 tok (ds k) sq")
    case (Inl e)
    with Cons.prems show ?thesis by (simp add: Let_def)
  next
    case (Inr ex1)
    obtain out err self2 where r: "emit_loop a tok shared ds (k + 1) ?self1 rest = (out, err, self2)"
      by (cases "emit_loop a tok shared ds (k + 1) ?self1 rest") auto
    from Cons.prems Inr r have "ex = ex1 \<or> ex \<in> set out"
      by (auto simp: Let_def split: if_splits)
    then show ?thesis
    proof
      assume "ex = ex1"
      with Inr maybe_change_dataset_frame_seq_len [of a shared k self] show ?thesis
        by auto
    next
      assume "ex \<in> set out"
      with r have "ex \<in> set (fst (emit_loop a tok shared ds (k + 1) ?self1 rest))" by simp
      from Cons.IH [OF this] maybe_change_dataset_frame_seq_len [of a shared k self]
      show ?thesis by auto
    qed
  qed
qed




section \<open>Labels against inputs\<close>

lemma num_pre_tokens_nonneg: "0 \<le> num_pre_tokens_of a sq"
  by (simp add: num_pre_tokens_of_def Let_def)

lemma num_other_tokens_cases:
  "num_other_tokens_of a sq = 0 \<or> (\<exists>k\<ge>0. num_other_tokens_of a sq = k + special_token_len a)"
  by (cases "other_tok sq") (simp_all add: num_other_tokens_of_def)

lemma left_layout_eqs:
  assumes "left_layout T mp stl len npt g = (n, m, o', s)"
  shows "n = min (T - stl - min mp npt) (len - 1)"
    and "m = min (T - n - stl) npt"
    and "o' = min (T - n - stl - m) g"
    and "s = 0"
  using assms unfolding left_layout_def Let_def prod.inject
  by blast+

lemma center_layout_eqs:
  assumes "center_layout T pl stl len npt g = (n, m, o', s)"
  shows "n = min (T - pl) (len - 1)"
    and "m = min (pl - stl) npt"
    and "o' = min (pl - m - stl) g"
    and "s = pl - m - stl - o'"
  using assms unfolding center_layout_def Let_def prod.inject
  by blast+

lemma center_layout_n:
  assumes "center_layout T (T div 2) stl len npt g = (n, m, o', s)" and "0 \<le> T" and "1 \<le> len"
  shows "0 \<le> n"
proof -
  have "T div 2 \<le> T" using assms(2) by simp
  with center_layout_eqs(1) [OF assms(1)] assms(3) show ?thesis by simp
qed

lemma layout_n_upper:
  assumes "layout a self sq = (n, m, o', s)"
  shows "n \<le> int (length (tokens sq)) - 1"
proof (cases "center_pad_decoder a")
  case True
  with assms have "center_layout (tgt_seq_len a) (pre_token_len self) (special_token_len a)
      (int (length (tokens sq))) (num_pre_tokens_of a sq) (num_other_tokens_of a sq) = (n, m, o', s)"
    by (simp add: layout_def Let_def)
  from center_layout_eqs(1) [OF this] show ?thesis by simp
next
  case False
  with assms have "left_layout (tgt_seq_len a) (min_pre_token_len self) (special_token_len a)
      (int (length (tokens sq))) (num_pre_tokens_of a sq) (num_other_tokens_of a sq) = (n, m, o', s)"
    by (simp add: layout_def Let_def)
  from left_layout_eqs(1) [OF this] show ?thesis by simp
qed

lemma left_layout_negative:
  fixes T stl len npt g n m o' s :: int
  assumes l: "left_layout T 4 stl len npt g = (n, m, o', s)"
    and neg: "n < 0" and T: "0 \<le> T" and len: "2 \<le> len" and npt: "0 \<le> npt"
    and g: "g = 0 \<or> (\<exists>k\<ge>0. g = k + stl)"
  shows "slice_bound (nat T) (s + o' + m + stl + n) - slice_bound (nat T) (s + o' + m + stl) \<le> 1"
proof -
  define q where "q = min 4 npt"
  have q: "0 \<le> q" "q \<le> 4" "q \<le> npt" using npt by (simp_all add: q_def)
  note e = left_layout_eqs [OF l]
  have n0: "n = min (T - stl - q) (len - 1)" using e(1) by (simp add: q_def)
  note m0 = e(2) and o0 = e(3) and s0 = e(4)
  from n0 neg len have n1: "n = T - stl - q" by linarith
  from m0 n1 q have m1: "m = q" by simp
  from o0 n1 m1 have o1: "o' = min 0 g" by simp
  define A where "A = s + o' + m + stl"
  define B where "B = A + n"
  have A: "A = o' + q + stl" by (simp add: A_def s0 m1)
  have B: "B = o' + T" by (simp add: B_def A n1)
  have BA: "B < A" using neg by (simp add: B_def)
  have ole: "o' \<le> 0" using o1 by simp
  have "slice_bound (nat T) B - slice_bound (nat T) A \<le> 1"
  proof (cases "0 \<le> B")
    case True
    with BA have "0 \<le> A" by simp
    with True BA show ?thesis by (simp add: slice_bound_def)
  next
    case Bneg: False
    show ?thesis
    proof (cases "0 \<le> A")
      case False
      with Bneg BA show ?thesis by (simp add: slice_bound_def)
    next
      case True
      from Bneg B have olt: "o' < - T" by simp
      with o1 T have og: "o' = g" "g < 0" by linarith+
      with g obtain k where k: "0 \<le> k" "g = k + stl" by auto
      from True A og k have "0 \<le> 2 * o' + q" by linarith
      with olt q have "T \<le> 1" by linarith
      then have "nat T \<le> 1" by simp
      moreover have "slice_bound (nat T) B \<le> nat T" by (rule slice_bound_le)
      ultimately show ?thesis by linarith
    qed
  qed
  then show ?thesis by (simp add: A_def B_def)
qed

lemma slice_unit_short: "slice_bound T (A + 1) - slice_bound T A \<le> 1"
  by (auto simp: slice_bound_def)

lemma py_slice_prefix:
  "0 \<le> n \<Longrightarrow> py_slice toks 0 n = take (nat n) toks"
  by (auto simp: py_slice_def slice_bound_def Let_def min_def)

lemma py_slice_shifted:
  assumes "0 \<le> n"
  shows "py_slice toks 1 (n + 1) = take (nat n) (drop 1 toks)"
proof (cases "1 \<le> length toks")
  case True
  have e: "nat (n + 1) = Suc (nat n)" using assms by simp
  show ?thesis
  proof (cases "Suc (nat n) \<le> length toks")
    case t: True
    then show ?thesis using True assms
      by (simp add: py_slice_def slice_bound_def Let_def e min_absorb2)
  next
    case False
    then have "min (length toks) (Suc (nat n)) = length toks" by simp
    moreover have "take (length toks - Suc 0) (drop (Suc 0) toks) = drop (Suc 0) toks" by simp
    moreover have "take (nat n) (drop (Suc 0) toks) = drop (Suc 0) toks" using False by simp
    ultimately show ?thesis using True assms
      by (simp add: py_slice_def slice_bound_def Let_def e min_absorb2)
  qed
next
  case False
  then show ?thesis by (simp add: py_slice_def slice_bound_def Let_def)
qed

lemma set_slice_fill:
  assumes "set_slice (replicate T g) A B src = Inr lab"
  shows "\<exists>src'. lab = replicate (slice_bound T A) g @ src'
                   @ replicate (T - (slice_bound T A + (slice_bound T B - slice_bound T A))) g
           \<and> length src' = slice_bound T B - slice_bound T A
           \<and> (src' = src \<or> (length src = 1
                 \<and> src' = replicate (slice_bound T B - slice_bound T A) (hd src)))"
proof -
  have lo: "slice_bound T A \<le> T" by (rule slice_bound_le)
  from set_slice_Inr [OF assms] lo show ?thesis by (auto simp: min_absorb2)
qed

lemma label_positions:
  assumes "set_slice (replicate T g) A B src = Inr lab" and "i < T" and "lab ! i \<noteq> g"
  shows "slice_bound T A \<le> i \<and> i < slice_bound T A + (slice_bound T B - slice_bound T A)"
proof -
  let ?lo = "slice_bound T A"
  let ?len = "slice_bound T B - slice_bound T A"
  from set_slice_fill [OF assms(1)] obtain src' where
    lab: "lab = replicate ?lo g @ src' @ replicate (T - (?lo + ?len)) g"
    and l: "length src' = ?len"
    by auto
  show ?thesis
  proof (rule ccontr)
    assume "\<not> ?thesis"
    then consider "i < ?lo" | "?lo + ?len \<le> i" by linarith
    then have "lab ! i = g"
    proof cases
      case 1
      then show ?thesis unfolding lab by (simp add: nth_append)
    next
      case 2
      then have "\<not> i < ?lo" "\<not> i - ?lo < ?len" "i - ?lo - ?len < T - (?lo + ?len)"
        using assms(2) by linarith+
      then show ?thesis unfolding lab by (simp add: nth_append l)
    qed
    with assms(3) show False by simp
  qed
qed

lemma label_shift_core:
  assumes lab: "set_slice (replicate T g) A B (take n (drop 1 toks)) = Inr lab"
    and inp: "set_slice inp0 A B (take n toks) = Inr inp"
    and len0: "length inp0 = T"
    and n: "Suc n \<le> length toks"
    and short: "n = 1 \<longrightarrow> slice_bound T B - slice_bound T A \<le> 1"
    and i: "lab ! i \<noteq> g" "lab ! Suc i \<noteq> g" "Suc i < T"
  shows "inp ! Suc i = lab ! i"
proof -
  let ?lo = "slice_bound T A"
  let ?len = "slice_bound T B - slice_bound T A"
  from label_positions [OF lab _ i(1)] label_positions [OF lab i(3) i(2)] i(3)
  have pos: "?lo \<le> i" "Suc i < ?lo + ?len" by auto
  then have len2: "2 \<le> ?len" by linarith
  have lo: "?lo \<le> T" by (rule slice_bound_le)
  from set_slice_Inr [OF lab] obtain srcL where
    l1: "lab = take ?lo (replicate T g) @ srcL @ drop (?lo + ?len) (replicate T g)"
    and l2: "length srcL = ?len"
    and l3: "srcL = take n (drop 1 toks)
             \<or> (length (take n (drop 1 toks)) = 1 \<and> srcL = replicate ?len (hd (take n (drop 1 toks))))"
    by auto
  have ln: "length (take n (drop 1 toks)) = n" "length (take n toks) = n" using n by auto
  have nlen: "n = ?len"
  proof (cases "srcL = take n (drop 1 toks)")
    case True
    with l2 ln show ?thesis by simp
  next
    case False
    with l3 ln have "n = 1" by simp
    with short len2 show ?thesis by simp
  qed
  from l3 nlen len2 ln have sl: "srcL = take n (drop 1 toks)" by auto
  from set_slice_Inr [OF inp] len0 obtain srcI where
    i1: "inp = take ?lo inp0 @ srcI @ drop (?lo + ?len) inp0"
    and i2: "length srcI = ?len"
    and i3: "srcI = take n toks \<or> (length (take n toks) = 1 \<and> srcI = replicate ?len (hd (take n toks)))"
    by auto
  from i3 nlen len2 ln have si: "srcI = take n toks" by auto
  have c: "Suc i - ?lo = Suc (i - ?lo)" using pos by simp
  have d: "Suc (i - ?lo) < n" using pos nlen by linarith
  have e: "\<not> i < ?lo" "i - ?lo < ?len" "\<not> Suc i < ?lo" "Suc i - ?lo < ?len"
    using pos by linarith+
  have t: "length (take ?lo (replicate T g)) = ?lo" "length (take ?lo inp0) = ?lo"
    using lo len0 by simp_all
  have a: "lab ! i = srcL ! (i - ?lo)"
    unfolding l1 using e(1,2) l2 t(1) by (simp only: nth_append) simp
  have b: "inp ! Suc i = srcI ! (Suc i - ?lo)"
    unfolding i1 using e(3,4) i2 t(2) by (simp only: nth_append) simp
  from a have "lab ! i = toks ! Suc (i - ?lo)" using d n by (simp add: sl)
  moreover from b have "inp ! Suc i = toks ! Suc (i - ?lo)" using d by (simp add: si c)
  ultimately show ?thesis by simp
qed


lemma tokenize_tokens_length: "2 \<le> length (tokens (tokenize_sequence a tok d sq))"
  by (simp add: tokenize_sequence_def)

lemma process_sequence_shift:
  assumes p: "process_sequence a self tok d sq = Inr ex"
    and mp: "min_pre_token_len self = 4"
    and pl: "pre_token_len self = tgt_seq_len a div 2"
  shows "\<exists>offset.
           (timing_random_offset a > 0 \<longrightarrow>
              randint (- timing_random_offset a) (frame_seq_len self) (r_jitter d) = Inr offset)
         \<and> (\<forall>i. Suc i < length (labels ex) \<and> labels ex ! i \<noteq> LABEL_IGNORE_ID
                  \<and> labels ex ! Suc i \<noteq> LABEL_IGNORE_ID \<longrightarrow>
                decoder_input_ids ex ! Suc i =
                  (if timing_random_offset a > 0 then jitter tok offset (labels ex ! i)
                   else labels ex ! i))"
proof -
  from p obtain sq1 flat where
    ps: "pad_and_split_token_sequence a self tok d (tokenize_sequence a tok d sq1) flat = Inr ex"
    by (auto simp: process_sequence_def bindE_Inr Let_def)
  let ?tk = "tokenize_sequence a tok d sq1"
  let ?toks = "tokens ?tk"
  let ?stl = "special_token_len a"
  let ?T = "nat (tgt_seq_len a)"
  from pad_and_split_Inr [OF ps] obtain n m o' s inp0 inp where
    tgt: "0 \<le> tgt_seq_len a"
    and lay: "layout a self ?tk = (n, m, o', s)"
    and l0: "length inp0 = ?T"
    and si: "set_slice inp0 (s + o' + m + ?stl) (s + o' + m + ?stl + n) (py_slice ?toks 0 n)
               = Inr inp"
    and sl: "set_slice (replicate ?T LABEL_IGNORE_ID) (s + o' + m + ?stl)
               (s + o' + m + ?stl + n) (py_slice ?toks 1 (n + 1)) = Inr (labels ex)"
    and ids: "if timing_random_offset a > 0
              then \<exists>offset. randint (- timing_random_offset a) (frame_seq_len self) (r_jitter d)
                               = Inr offset
                     \<and> decoder_input_ids ex = map (jitter tok offset) inp
              else decoder_input_ids ex = inp"
    by blast
  have len2: "2 \<le> length ?toks" by (rule tokenize_tokens_length)
  have lT: "length (labels ex) = ?T" using set_slice_length [OF sl] by simp
  have liT: "length inp = ?T" using set_slice_length [OF si] l0 by simp
  have core: "inp ! Suc i = labels ex ! i"
    if i: "Suc i < length (labels ex)" "labels ex ! i \<noteq> LABEL_IGNORE_ID"
      "labels ex ! Suc i \<noteq> LABEL_IGNORE_ID" for i
  proof (cases "0 \<le> n")
    case True
    from i(1) lT have iT: "Suc i < ?T" by simp
    have up: "Suc (nat n) \<le> length ?toks" using layout_n_upper [OF lay] True by linarith
    have short: "nat n = 1 \<longrightarrow>
        slice_bound ?T (s + o' + m + ?stl + n) - slice_bound ?T (s + o' + m + ?stl) \<le> 1"
    proof
      assume "nat n = 1"
      then have "n = 1" by linarith
      then show "slice_bound ?T (s + o' + m + ?stl + n) - slice_bound ?T (s + o' + m + ?stl) \<le> 1"
        using slice_unit_short [of ?T "s + o' + m + ?stl"] by simp
    qed
    from sl si have sl': "set_slice (replicate ?T LABEL_IGNORE_ID) (s + o' + m + ?stl)
               (s + o' + m + ?stl + n) (take (nat n) (drop 1 ?toks)) = Inr (labels ex)"
      and si': "set_slice inp0 (s + o' + m + ?stl) (s + o' + m + ?stl + n) (take (nat n) ?toks)
               = Inr inp"
      using True by (simp_all only: py_slice_prefix py_slice_shifted)
    from label_shift_core [OF sl' si' l0 up short i(2,3) iT] show ?thesis .
  next
    case False
    from i(1) lT have iT: "Suc i < ?T" by simp
    from False have neg: "n < 0" by simp
    have left: "\<not> center_pad_decoder a"
    proof
      assume c: "center_pad_decoder a"
      with lay have "center_layout (tgt_seq_len a) (tgt_seq_len a div 2) ?stl
          (int (length ?toks)) (num_pre_tokens_of a ?tk) (num_other_tokens_of a ?tk) = (n, m, o', s)"
        by (simp add: layout_def Let_def pl)
      from center_layout_n [OF this tgt] len2 neg show False by simp
    qed
    with lay have "left_layout (tgt_seq_len a) 4 ?stl (int (length ?toks))
        (num_pre_tokens_of a ?tk) (num_other_tokens_of a ?tk) = (n, m, o', s)"
      by (simp add: layout_def Let_def mp)
    from left_layout_negative [OF this neg tgt _ num_pre_tokens_nonneg num_other_tokens_cases] len2
    have short: "slice_bound ?T (s + o' + m + ?stl + n) - slice_bound ?T (s + o' + m + ?stl) \<le> 1"
      by simp
    from label_positions [OF sl _ i(2)] label_positions [OF sl iT i(3)] iT short
    show ?thesis by linarith
  qed
  show ?thesis
  proof (cases "timing_random_offset a > 0")
    case True
    with ids obtain offset where
      r: "randint (- timing_random_offset a) (frame_seq_len self) (r_jitter d) = Inr offset"
      and d: "decoder_input_ids ex = map (jitter tok offset) inp"
      by auto
    have "decoder_input_ids ex ! Suc i = jitter tok offset (labels ex ! i)"
      if "Suc i < length (labels ex)" "labels ex ! i \<noteq> LABEL_IGNORE_ID"
        "labels ex ! Suc i \<noteq> LABEL_IGNORE_ID" for i
      using core [OF that] that(1) lT liT d by simp
    with r True show ?thesis by auto
  next
    case False
    with ids core show ?thesis by auto
  qed
qed

lemma randint_range: "randint lo hi r = Inr x \<Longrightarrow> lo \<le> x \<and> x \<le> hi"
  using pos_mod_bound [of "hi - lo + 1" "int r"] pos_mod_sign [of "hi - lo + 1" "int r"]
  by (auto simp: randint_def split: if_splits)

section \<open>Claims on the emitted examples\<close>








text \<open>
  C1 (as amended). In every emitted example, at every position \<open>i\<close> such that
  \<open>labels[i]\<close> and \<open>labels[i+1]\<close> are both not the ignore marker,
  \<open>decoder_input_ids[i+1]\<close> is \<open>labels[i]\<close> when \<^verbatim>\<open>timing_random_offset\<close> is not positive,
  and otherwise \<open>labels[i]\<close> after the jitter of the window: one offset of
  \<open>[-timing_random_offset, src_seq_len - 1]\<close>, added to the ids of the \<^verbatim>\<open>TIME_SHIFT\<close> range
  and clamped to it. Nothing is stated for a position whose next label is the ignore
  marker or absent, as after the last copied main token.
\<close>

theorem label_shift_relation:
  assumes "ex \<in> set (fst (get_next_beatmap a (init_iterable a test) tok shared r ds samples
                            ev idx diff oth))"
  shows "\<exists>offset.
           (timing_random_offset a > 0 \<longrightarrow>
              - timing_random_offset a \<le> offset \<and> offset \<le> src_seq_len a - 1)
         \<and> (\<forall>i. Suc i < length (labels ex) \<and> labels ex ! i \<noteq> LABEL_IGNORE_ID
                  \<and> labels ex ! Suc i \<noteq> LABEL_IGNORE_ID \<longrightarrow>
                decoder_input_ids ex ! Suc i =
                  (if timing_random_offset a > 0 then jitter tok offset (labels ex ! i)
                   else labels ex ! i))"
proof -
  let ?self = "init_iterable a test"
  from assms obtain seqs where
    e: "ex \<in> set (fst (emit_loop a tok shared ds 0 ?self seqs))"
    by (auto simp: get_next_beatmap_def split: sum.splits prod.splits)
  from emit_loop_examples [OF e] obtain sq self' k' where
    f: "frame_seq_len self' = frame_seq_len ?self"
    and mp: "min_pre_token_len self' = min_pre_token_len ?self"
    and pl: "pre_token_len self' = pre_token_len ?self"
    and p: "process_sequence a self' tok (ds k') sq = Inr ex"
    by blast
  have mp4: "min_pre_token_len self' = 4" and pl2: "pre_token_len self' = tgt_seq_len a div 2"
    and fs: "frame_seq_len self' = src_seq_len a - 1"
    using f mp pl by (simp_all add: init_iterable_def)
  from process_sequence_shift [OF p mp4 pl2] obtain offset where
    r: "timing_random_offset a > 0 \<longrightarrow>
          randint (- timing_random_offset a) (frame_seq_len self') (r_jitter (ds k')) = Inr offset"
    and s: "\<forall>i. Suc i < length (labels ex) \<and> labels ex ! i \<noteq> LABEL_IGNORE_ID
                  \<and> labels ex ! Suc i \<noteq> LABEL_IGNORE_ID \<longrightarrow>
                decoder_input_ids ex ! Suc i =
                  (if timing_random_offset a > 0 then jitter tok offset (labels ex ! i)
                   else labels ex ! i)"
    by blast
  from r randint_range [of "- timing_random_offset a" "frame_seq_len self'" "r_jitter (ds k')" offset]
  have "timing_random_offset a > 0 \<longrightarrow>
          - timing_random_offset a \<le> offset \<and> offset \<le> src_seq_len a - 1"
    by (simp add: fs)
  with s show ?thesis by blast
qed

theorem label_shift_relation_witness:
  "demo_example \<in> set (fst (get_next_beatmap demo_args (init_iterable demo_args False)
        demo_tokenizer None 4 (\<lambda>k. demo_draws) [1, 2, 3, 4, 5, 6, 7, 8, 9] demo_events 7 5 None))
   \<and> labels demo_example ! 2 \<noteq> LABEL_IGNORE_ID
   \<and> labels demo_example ! 3 \<noteq> LABEL_IGNORE_ID
   \<and> decoder_input_ids demo_example ! 3 = labels demo_example ! 2"
proof -
  have m: "demo_example \<in> set (fst (get_next_beatmap demo_args (init_iterable demo_args False)
        demo_tokenizer None 4 (\<lambda>k. demo_draws) [1, 2, 3, 4, 5, 6, 7, 8, 9] demo_events 7 5 None))"
    by (simp add: demo_run)
  have l: "Suc 2 < length (labels demo_example)" "labels demo_example ! 2 \<noteq> LABEL_IGNORE_ID"
    "labels demo_example ! Suc 2 \<noteq> LABEL_IGNORE_ID" "\<not> timing_random_offset demo_args > 0"
    by (simp_all add: demo_example_def LABEL_IGNORE_ID_def demo_args_def)
  from label_shift_relation [OF m] obtain offset where
    "\<forall>i. Suc i < length (labels demo_example) \<and> labels demo_example ! i \<noteq> LABEL_IGNORE_ID
                  \<and> labels demo_example ! Suc i \<noteq> LABEL_IGNORE_ID \<longrightarrow>
                decoder_input_ids demo_example ! Suc i =
                  (if timing_random_offset demo_args > 0
                   then jitter demo_tokenizer offset (labels demo_example ! i)
                   else labels demo_example ! i)"
    by blast
  then have "Suc 2 < length (labels demo_example) \<and> labels demo_example ! 2 \<noteq> LABEL_IGNORE_ID
                  \<and> labels demo_example ! Suc 2 \<noteq> LABEL_IGNORE_ID \<longrightarrow>
                decoder_input_ids demo_example ! Suc 2 =
                  (if timing_random_offset demo_args > 0
                   then jitter demo_tokenizer offset (labels demo_example ! 2)
                   else labels demo_example ! 2)"
    by (rule spec)
  with l have "decoder_input_ids demo_example ! Suc 2 = labels demo_example ! 2" by simp
  moreover have "Suc 2 = 3" by simp
  ultimately show ?thesis using m l by simp
qed

text \<open>
  C1 as stated fails at the last copied main token, whose label (here the end-of-sequence
  id) is followed by padding in the input, and at a time shift changed by jitter.
\<close>

theorem label_shift_counterexample:
  "fst (get_next_beatmap demo_args (init_iterable demo_args False) demo_tokenizer None 4
          (\<lambda>k. demo_draws) [1, 2, 3, 4, 5, 6, 7, 8, 9] demo_events 7 5 None) = [demo_example]
   \<and> labels demo_example ! 4 \<noteq> LABEL_IGNORE_ID
   \<and> labels demo_example ! 4 \<noteq> decoder_input_ids demo_example ! (4 + 1)
   \<and> fst (get_next_beatmap jitter_args (init_iterable jitter_args False) demo_tokenizer None 4
          (\<lambda>k. demo_draws) [1, 2, 3, 4, 5, 6, 7, 8, 9] demo_events 7 5 None) = [jitter_example]
   \<and> labels jitter_example ! 2 \<noteq> LABEL_IGNORE_ID
   \<and> labels jitter_example ! 2 \<noteq> decoder_input_ids jitter_example ! (2 + 1)"
  by (simp add: demo_run jitter_run)
     (simp add: demo_example_def jitter_example_def LABEL_IGNORE_ID_def)


end
